theory Spec2Isabelle
  imports Complex_Main "HOL-Library.Signed_Division"
begin

section \<open>Errors and C integers\<close>

text \<open>
  The two programs under \<^verbatim>\<open>src/gprof\<close> (\<^verbatim>\<open>mpi_example.c\<close>, \<^verbatim>\<open>serial_example.c\<close>) are
  modelled function by function.  Whatever ends a run early, or is undefined behaviour in C,
  is a value of the type \<open>error\<close>; a function that can fail returns \<open>error + 'a\<close>.
\<close>

datatype error =
    Allocation_Failed      \<comment> \<open>\<^verbatim>\<open>malloc\<close> returned \<^verbatim>\<open>NULL\<close>: message on stderr, \<^verbatim>\<open>exit(1)\<close>\<close>
  | Invalid_Access         \<comment> \<open>a read or write outside an allocated object\<close>
  | Signed_Overflow        \<comment> \<open>an \<^verbatim>\<open>int\<close> result outside the 32-bit range\<close>
  | Division_By_Zero       \<comment> \<open>\<^verbatim>\<open>/\<close> or \<^verbatim>\<open>%\<close> with a zero divisor\<close>
  | Collective_Stall       \<comment> \<open>a process waits in a collective call that another never reaches\<close>

definition bind :: "error + 'a \<Rightarrow> ('a \<Rightarrow> error + 'b) \<Rightarrow> error + 'b" where
  "bind m f = (case m of Inl e \<Rightarrow> Inl e | Inr x \<Rightarrow> f x)"

definition INT_MIN :: int where "INT_MIN = - (2 ^ 31)"
definition INT_MAX :: int where "INT_MAX = 2 ^ 31 - 1"

definition int_ok :: "int \<Rightarrow> bool" where
  "int_ok x \<longleftrightarrow> INT_MIN \<le> x \<and> x \<le> INT_MAX"

text \<open>The result of an \<^verbatim>\<open>int\<close> operation: the mathematical value when it fits.\<close>

definition c_int :: "int \<Rightarrow> error + int" where
  "c_int x = (if int_ok x then Inr x else Inl Signed_Overflow)"

text \<open>C's \<^verbatim>\<open>/\<close> and \<^verbatim>\<open>%\<close> on \<^verbatim>\<open>int\<close> truncate towards zero (\<open>sdiv\<close>, \<open>smod\<close>).\<close>

definition c_div :: "int \<Rightarrow> int \<Rightarrow> error + int" where
  "c_div a b = (if b = 0 then Inl Division_By_Zero else c_int (a sdiv b))"

definition c_mod :: "int \<Rightarrow> int \<Rightarrow> error + int" where
  "c_mod a b =
     (if b = 0 then Inl Division_By_Zero
      else if int_ok (a sdiv b) then Inr (a smod b) else Inl Signed_Overflow)"

section \<open>The row partitioner\<close>

text \<open>
  \<^verbatim>\<open>compute_local_chunk(rank, size, global_n, &local_start, &local_end)\<close> of
  \<^verbatim>\<open>mpi_example.c\<close>.  The two out-parameters are returned as a pair; the parameter
  \<^verbatim>\<open>size\<close> is written \<open>nranks\<close>, since \<open>size\<close> is a constant of HOL.
\<close>

definition compute_local_chunk :: "int \<Rightarrow> int \<Rightarrow> int \<Rightarrow> error + (int \<times> int)" where
  "compute_local_chunk rank nranks global_n =
     bind (c_div global_n nranks) (\<lambda>rows_per_rank.
     bind (c_mod global_n nranks) (\<lambda>remainder.
     bind (c_int (rank * rows_per_rank)) (\<lambda>p.
     bind (c_int (p + (if rank < remainder then rank else remainder))) (\<lambda>local_start.
     bind (c_int (local_start + rows_per_rank)) (\<lambda>q.
     bind (c_int (q + (if rank < remainder then 1 else 0))) (\<lambda>local_end.
     Inr (local_start, local_end)))))))"

text \<open>The rows of one worker, as a set; empty when the call fails.\<close>

definition chunk_rows :: "int \<Rightarrow> int \<Rightarrow> int \<Rightarrow> int set" where
  "chunk_rows rank nranks global_n =
     (case compute_local_chunk rank nranks global_n of
        Inl e \<Rightarrow> {}
      | Inr (local_start, local_end) \<Rightarrow> {local_start ..< local_end})"

definition chunk_count :: "int \<Rightarrow> int \<Rightarrow> int \<Rightarrow> int" where
  "chunk_count rank nranks global_n =
     (case compute_local_chunk rank nranks global_n of
        Inl e \<Rightarrow> 0
      | Inr (local_start, local_end) \<Rightarrow> local_end - local_start)"

text \<open>
  The closed form of the first row of worker \<open>r\<close>: \<open>r\<close> blocks of the base size, plus one
  extra row for each earlier worker that is below the remainder.
\<close>

definition split_point :: "int \<Rightarrow> int \<Rightarrow> int \<Rightarrow> int" where
  "split_point r nranks n = r * (n div nranks) + min r (n mod nranks)"

section \<open>Doubles\<close>

text \<open>
  The programs compute on \<^verbatim>\<open>double\<close>.  The model is polymorphic in the type \<open>'a\<close> of the values
  and takes the operations the code uses as a parameter: the value of a literal \<^verbatim>\<open>k.0\<close>,
  \<^verbatim>\<open>+\<close>, \<^verbatim>\<open>*\<close> and \<^verbatim>\<open>sqrt\<close>.  No law is assumed of them, so whatever is proved for every
  \<open>'a arith\<close> holds of IEEE arithmetic with its rounding, infinities and NaNs, and the order
  in which the code applies the operations is visible in the results.
\<close>

record 'a arith =
  d_lit :: "int \<Rightarrow> 'a"
  d_add :: "'a \<Rightarrow> 'a \<Rightarrow> 'a"
  d_mul :: "'a \<Rightarrow> 'a \<Rightarrow> 'a"
  d_sqrt :: "'a \<Rightarrow> 'a"

text \<open>Exact arithmetic on the reals: the mathematical value of a computation.\<close>

definition exact_arith :: "real arith" where
  "exact_arith = \<lparr>d_lit = of_int, d_add = (+), d_mul = (*), d_sqrt = sqrt\<rparr>"

text \<open>
  Arithmetic that rounds every result with \<open>rnd\<close>: finite doubles are the reals that \<open>rnd\<close>
  leaves alone.
\<close>

definition rounded_arith :: "(real \<Rightarrow> real) \<Rightarrow> real arith" where
  "rounded_arith rnd =
     \<lparr>d_lit = (\<lambda>k. rnd (of_int k)), d_add = (\<lambda>x y. rnd (x + y)),
      d_mul = (\<lambda>x y. rnd (x * y)), d_sqrt = (\<lambda>x. rnd (sqrt x))\<rparr>"

section \<open>Memory\<close>

text \<open>
  A \<^verbatim>\<open>double**\<close> is the address of an array of row pointers, each the address of an array of
  doubles, so two matrices, or two rows of one matrix, may share storage.  The heap keeps the
  two kinds of arrays apart.  A pointer cell that was never written holds \<open>None\<close>.  The
  allocator hands out the addresses \<open>next_addr\<close>, \<open>next_addr + 1\<close>, ... and has \<open>avail\<close>
  bytes left; \<open>junk p j\<close> is what cell \<open>j\<close> of a fresh array at address \<open>p\<close> happens to hold,
  since \<^verbatim>\<open>malloc\<close> does not clear the memory it returns.
\<close>

type_synonym addr = nat

record 'a heap =
  ptr_arrays :: "addr \<rightharpoonup> addr option list"
  dbl_arrays :: "addr \<rightharpoonup> 'a list"
  next_addr :: addr
  avail :: nat
  junk :: "addr \<Rightarrow> nat \<Rightarrow> 'a"

text \<open>
  \<^verbatim>\<open>count * sizeof(double)\<close> and \<^verbatim>\<open>count * sizeof(double*)\<close>: the \<^verbatim>\<open>int\<close> is converted to the
  64-bit \<^verbatim>\<open>size_t\<close> and multiplied by 8 there.
\<close>

definition alloc_bytes :: "int \<Rightarrow> nat" where
  "alloc_bytes count = nat ((count * 8) mod 2 ^ 64)"

text \<open>
  \<^verbatim>\<open>malloc\<close>, once for each element type; \<open>None\<close> is \<^verbatim>\<open>NULL\<close>.  A request of zero bytes is
  served with a fresh address, as glibc does.
\<close>

definition malloc_ptrs :: "int \<Rightarrow> 'a heap \<Rightarrow> (addr \<times> 'a heap) option" where
  "malloc_ptrs count h =
     (let bytes = alloc_bytes count in
      if avail h < bytes then None
      else Some (next_addr h,
             h\<lparr>ptr_arrays := (ptr_arrays h)(next_addr h \<mapsto> replicate (bytes div 8) None),
               next_addr := Suc (next_addr h),
               avail := avail h - bytes\<rparr>))"

definition malloc_dbls :: "int \<Rightarrow> 'a heap \<Rightarrow> (addr \<times> 'a heap) option" where
  "malloc_dbls count h =
     (let bytes = alloc_bytes count in
      if avail h < bytes then None
      else Some (next_addr h,
             h\<lparr>dbl_arrays := (dbl_arrays h)(next_addr h \<mapsto>
                                map (junk h (next_addr h)) [0 ..< bytes div 8]),
               next_addr := Suc (next_addr h),
               avail := avail h - bytes\<rparr>))"

text \<open>\<^verbatim>\<open>free\<close> of a row and of a pointer array; freeing what is not allocated is undefined.\<close>

definition free_dbls :: "addr \<Rightarrow> 'a heap \<Rightarrow> error + 'a heap" where
  "free_dbls p h =
     (case dbl_arrays h p of
        None \<Rightarrow> Inl Invalid_Access
      | Some xs \<Rightarrow> Inr (h\<lparr>dbl_arrays := (dbl_arrays h)(p := None),
                          avail := avail h + 8 * length xs\<rparr>))"

definition free_ptrs :: "addr \<Rightarrow> 'a heap \<Rightarrow> error + 'a heap" where
  "free_ptrs m h =
     (case ptr_arrays h m of
        None \<Rightarrow> Inl Invalid_Access
      | Some ps \<Rightarrow> Inr (h\<lparr>ptr_arrays := (ptr_arrays h)(m := None),
                          avail := avail h + 8 * length ps\<rparr>))"

text \<open>\<open>row_of h m i\<close> reads the pointer \<^verbatim>\<open>m[i]\<close>; \<open>None\<close> when the read is not defined.\<close>

definition row_of :: "'a heap \<Rightarrow> addr \<Rightarrow> int \<Rightarrow> addr option" where
  "row_of h m i =
     (case ptr_arrays h m of
        None \<Rightarrow> None
      | Some ps \<Rightarrow> if 0 \<le> i \<and> nat i < length ps then ps ! nat i else None)"

text \<open>The assignment \<^verbatim>\<open>m[i] = p\<close>.\<close>

definition store_ptr :: "addr \<Rightarrow> int \<Rightarrow> addr \<Rightarrow> 'a heap \<Rightarrow> error + 'a heap" where
  "store_ptr m i p h =
     (case ptr_arrays h m of
        None \<Rightarrow> Inl Invalid_Access
      | Some ps \<Rightarrow>
          if 0 \<le> i \<and> nat i < length ps
          then Inr (h\<lparr>ptr_arrays := (ptr_arrays h)(m \<mapsto> ps[nat i := Some p])\<rparr>)
          else Inl Invalid_Access)"

text \<open>The read \<^verbatim>\<open>m[i][j]\<close> and the assignment \<^verbatim>\<open>m[i][j] = v\<close>.\<close>

definition load :: "'a heap \<Rightarrow> addr \<Rightarrow> int \<Rightarrow> int \<Rightarrow> error + 'a" where
  "load h m i j =
     (case row_of h m i of
        None \<Rightarrow> Inl Invalid_Access
      | Some p \<Rightarrow>
          (case dbl_arrays h p of
             None \<Rightarrow> Inl Invalid_Access
           | Some xs \<Rightarrow>
               if 0 \<le> j \<and> nat j < length xs then Inr (xs ! nat j) else Inl Invalid_Access))"

definition store :: "addr \<Rightarrow> int \<Rightarrow> int \<Rightarrow> 'a \<Rightarrow> 'a heap \<Rightarrow> error + 'a heap" where
  "store m i j v h =
     (case row_of h m i of
        None \<Rightarrow> Inl Invalid_Access
      | Some p \<Rightarrow>
          (case dbl_arrays h p of
             None \<Rightarrow> Inl Invalid_Access
           | Some xs \<Rightarrow>
               if 0 \<le> j \<and> nat j < length xs
               then Inr (h\<lparr>dbl_arrays := (dbl_arrays h)(p \<mapsto> xs[nat j := v])\<rparr>)
               else Inl Invalid_Access))"

section \<open>Loops\<close>

text \<open>
  \<^verbatim>\<open>for (int i = lo; i < hi; i++) body\<close>, on a state \<open>'s\<close>; the loop stops at the first
  error.  The counter stays below \<open>hi\<close>, so \<^verbatim>\<open>i++\<close> cannot overflow.
\<close>

function for_loop :: "int \<Rightarrow> int \<Rightarrow> (int \<Rightarrow> 's \<Rightarrow> error + 's) \<Rightarrow> 's \<Rightarrow> error + 's" where
  "for_loop i hi body s =
     (if i < hi
      then (case body i s of Inl e \<Rightarrow> Inl e | Inr s' \<Rightarrow> for_loop (i + 1) hi body s')
      else Inr s)"
  by pat_completeness auto
termination
  by (relation "measure (\<lambda>(i, hi, body, s). nat (hi - i))") auto

declare for_loop.simps [simp del]

section \<open>The functions of \<^verbatim>\<open>mpi_example.c\<close>\<close>

definition allocate_matrix_local :: "int \<Rightarrow> int \<Rightarrow> 'a heap \<Rightarrow> error + (addr \<times> 'a heap)" where
  "allocate_matrix_local rows cols h =
     (case malloc_ptrs rows h of
        None \<Rightarrow> Inl Allocation_Failed
      | Some (matrix, h1) \<Rightarrow>
          bind (for_loop 0 rows (\<lambda>i h2.
                  (case malloc_dbls cols h2 of
                     None \<Rightarrow> Inl Allocation_Failed
                   | Some (p, h3) \<Rightarrow> store_ptr matrix i p h3)) h1)
            (\<lambda>h4. Inr (matrix, h4)))"

definition free_matrix_local :: "addr \<Rightarrow> int \<Rightarrow> 'a heap \<Rightarrow> error + 'a heap" where
  "free_matrix_local matrix rows h =
     bind (for_loop 0 rows (\<lambda>i h1.
             (case row_of h1 matrix i of
                None \<Rightarrow> Inl Invalid_Access
              | Some p \<Rightarrow> free_dbls p h1)) h)
       (free_ptrs matrix)"

definition initialize_matrix_local :: "addr \<Rightarrow> int \<Rightarrow> int \<Rightarrow> 'a \<Rightarrow> 'a heap \<Rightarrow> error + 'a heap" where
  "initialize_matrix_local matrix rows cols v =
     for_loop 0 rows (\<lambda>i.
       for_loop 0 cols (\<lambda>j. store matrix i j v))"

definition matrix_multiply_local ::
    "'a arith \<Rightarrow> addr \<Rightarrow> addr \<Rightarrow> addr \<Rightarrow> int \<Rightarrow> int \<Rightarrow> 'a heap \<Rightarrow> error + 'a heap" where
  "matrix_multiply_local F A B C rows n =
     for_loop 0 rows (\<lambda>i.
       for_loop 0 n (\<lambda>j h0.
         bind (store C i j (d_lit F 0) h0)
           (for_loop 0 n (\<lambda>k h.
              bind (load h C i j) (\<lambda>c.
              bind (load h A i k) (\<lambda>a.
              bind (load h B k j) (\<lambda>b.
              store C i j (d_add F c (d_mul F a b)) h)))))))"

definition matrix_add_local ::
    "'a arith \<Rightarrow> addr \<Rightarrow> addr \<Rightarrow> addr \<Rightarrow> int \<Rightarrow> int \<Rightarrow> 'a heap \<Rightarrow> error + 'a heap" where
  "matrix_add_local F A B C rows cols =
     for_loop 0 rows (\<lambda>i.
       for_loop 0 cols (\<lambda>j h.
         bind (load h A i j) (\<lambda>a.
         bind (load h B i j) (\<lambda>b.
         store C i j (d_add F a b) h))))"

text \<open>
  \<^verbatim>\<open>compute_local_norm\<close> only reads the heap.  The loop state is the running \<^verbatim>\<open>sum\<close> together
  with the heap, which is returned beside the result so that what the call leaves in memory
  can be stated.
\<close>

definition compute_local_norm ::
    "'a arith \<Rightarrow> addr \<Rightarrow> int \<Rightarrow> int \<Rightarrow> 'a heap \<Rightarrow> error + ('a \<times> 'a heap)" where
  "compute_local_norm F A rows cols h =
     for_loop 0 rows (\<lambda>i.
       for_loop 0 cols (\<lambda>j (sum, h1).
         bind (load h1 A i j) (\<lambda>a. Inr (d_add F sum (d_mul F a a), h1))))
       (d_lit F 0, h)"

section \<open>The functions of \<^verbatim>\<open>serial_example.c\<close>\<close>

definition allocate_matrix :: "int \<Rightarrow> 'a heap \<Rightarrow> error + (addr \<times> 'a heap)" where
  "allocate_matrix n h =
     (case malloc_ptrs n h of
        None \<Rightarrow> Inl Allocation_Failed
      | Some (matrix, h1) \<Rightarrow>
          bind (for_loop 0 n (\<lambda>i h2.
                  (case malloc_dbls n h2 of
                     None \<Rightarrow> Inl Allocation_Failed
                   | Some (p, h3) \<Rightarrow> store_ptr matrix i p h3)) h1)
            (\<lambda>h4. Inr (matrix, h4)))"

definition free_matrix :: "addr \<Rightarrow> int \<Rightarrow> 'a heap \<Rightarrow> error + 'a heap" where
  "free_matrix matrix n h =
     bind (for_loop 0 n (\<lambda>i h1.
             (case row_of h1 matrix i of
                None \<Rightarrow> Inl Invalid_Access
              | Some p \<Rightarrow> free_dbls p h1)) h)
       (free_ptrs matrix)"

definition initialize_matrix :: "addr \<Rightarrow> int \<Rightarrow> 'a \<Rightarrow> 'a heap \<Rightarrow> error + 'a heap" where
  "initialize_matrix matrix n v =
     for_loop 0 n (\<lambda>i.
       for_loop 0 n (\<lambda>j. store matrix i j v))"

definition matrix_multiply ::
    "'a arith \<Rightarrow> addr \<Rightarrow> addr \<Rightarrow> addr \<Rightarrow> int \<Rightarrow> 'a heap \<Rightarrow> error + 'a heap" where
  "matrix_multiply F A B C n =
     for_loop 0 n (\<lambda>i.
       for_loop 0 n (\<lambda>j h0.
         bind (store C i j (d_lit F 0) h0)
           (for_loop 0 n (\<lambda>k h.
              bind (load h C i j) (\<lambda>c.
              bind (load h A i k) (\<lambda>a.
              bind (load h B k j) (\<lambda>b.
              store C i j (d_add F c (d_mul F a b)) h)))))))"

definition matrix_add ::
    "'a arith \<Rightarrow> addr \<Rightarrow> addr \<Rightarrow> addr \<Rightarrow> int \<Rightarrow> 'a heap \<Rightarrow> error + 'a heap" where
  "matrix_add F A B C n =
     for_loop 0 n (\<lambda>i.
       for_loop 0 n (\<lambda>j h.
         bind (load h A i j) (\<lambda>a.
         bind (load h B i j) (\<lambda>b.
         store C i j (d_add F a b) h))))"

definition matrix_transpose :: "addr \<Rightarrow> addr \<Rightarrow> int \<Rightarrow> 'a heap \<Rightarrow> error + 'a heap" where
  "matrix_transpose A AT n =
     for_loop 0 n (\<lambda>i.
       for_loop 0 n (\<lambda>j h.
         bind (load h A j i) (\<lambda>a. store AT i j a h)))"

definition compute_frobenius_norm ::
    "'a arith \<Rightarrow> addr \<Rightarrow> int \<Rightarrow> 'a heap \<Rightarrow> error + ('a \<times> 'a heap)" where
  "compute_frobenius_norm F A n h =
     bind (for_loop 0 n (\<lambda>i.
             for_loop 0 n (\<lambda>j (sum, h1).
               bind (load h1 A i j) (\<lambda>a. Inr (d_add F sum (d_mul F a a), h1))))
             (d_lit F 0, h))
       (\<lambda>(sum, h2). Inr (d_sqrt F sum, h2))"

section \<open>Blocks in memory\<close>

text \<open>
  \<open>block h m rows cols\<close>: in the heap \<open>h\<close>, \<open>m\<close> points to at least \<open>rows\<close> row pointers, each
  to an allocated row of at least \<open>cols\<close> doubles.  \<open>holds h m rows cols a\<close>: reading cell
  \<open>(i, j)\<close> of that block gives \<open>a i j\<close>.  \<open>own_rows\<close>: the rows of the block are pairwise
  different arrays.  \<open>apart\<close>: no row of the first block is a row of the second.
\<close>

definition block :: "'a heap \<Rightarrow> addr \<Rightarrow> int \<Rightarrow> int \<Rightarrow> bool" where
  "block h m rows cols \<longleftrightarrow>
     (\<forall>i\<in>{0..<rows}.
        case row_of h m i of
          None \<Rightarrow> False
        | Some p \<Rightarrow> (case dbl_arrays h p of None \<Rightarrow> False | Some xs \<Rightarrow> cols \<le> int (length xs)))"

definition holds :: "'a heap \<Rightarrow> addr \<Rightarrow> int \<Rightarrow> int \<Rightarrow> (int \<Rightarrow> int \<Rightarrow> 'a) \<Rightarrow> bool" where
  "holds h m rows cols a \<longleftrightarrow> (\<forall>i\<in>{0..<rows}. \<forall>j\<in>{0..<cols}. load h m i j = Inr (a i j))"

definition own_rows :: "'a heap \<Rightarrow> addr \<Rightarrow> int \<Rightarrow> bool" where
  "own_rows h m rows \<longleftrightarrow>
     (\<forall>i\<in>{0..<rows}. \<forall>i'\<in>{0..<rows}. row_of h m i = row_of h m i' \<longrightarrow> i = i')"

definition apart :: "'a heap \<Rightarrow> addr \<Rightarrow> int \<Rightarrow> addr \<Rightarrow> int \<Rightarrow> bool" where
  "apart h m rows m' rows' \<longleftrightarrow>
     (\<forall>i\<in>{0..<rows}. \<forall>i'\<in>{0..<rows'}. row_of h m i \<noteq> row_of h m' i')"

text \<open>
  \<open>same_shape h h'\<close>: the two heaps have the same arrays of the same lengths, the same row
  pointers and the same allocator state; only the doubles stored may differ.
  \<open>in_block h m rows cols m' i' j'\<close>: the cell \<^verbatim>\<open>m'[i'][j']\<close> is one of the cells of the first
  \<open>cols\<close> columns of the first \<open>rows\<close> rows of \<open>m\<close>.
\<close>

definition same_shape :: "'a heap \<Rightarrow> 'a heap \<Rightarrow> bool" where
  "same_shape h h' \<longleftrightarrow>
     ptr_arrays h' = ptr_arrays h \<and> next_addr h' = next_addr h \<and> avail h' = avail h \<and>
     junk h' = junk h \<and>
     (\<forall>p. map_option length (dbl_arrays h' p) = map_option length (dbl_arrays h p))"

definition in_block :: "'a heap \<Rightarrow> addr \<Rightarrow> int \<Rightarrow> int \<Rightarrow> addr \<Rightarrow> int \<Rightarrow> int \<Rightarrow> bool" where
  "in_block h m rows cols m' i' j' \<longleftrightarrow>
     j' \<in> {0..<cols} \<and> (\<exists>i\<in>{0..<rows}. row_of h m' i' = row_of h m i)"

text \<open>
  The value the multiplication loop leaves in cell \<open>(i, j)\<close>: starting from the literal
  \<^verbatim>\<open>0.0\<close>, the products \<open>a i k * b k j\<close> are added for \<open>k = 0, 1, ..., n - 1\<close> in this order.
\<close>

definition dot :: "'a arith \<Rightarrow> (int \<Rightarrow> int \<Rightarrow> 'a) \<Rightarrow> (int \<Rightarrow> int \<Rightarrow> 'a) \<Rightarrow> int \<Rightarrow> int \<Rightarrow> int \<Rightarrow> 'a" where
  "dot F a b n i j = foldl (\<lambda>acc k. d_add F acc (d_mul F (a i k) (b k j))) (d_lit F 0) [0..n - 1]"

text \<open>
  The value of the sum-of-squares loops: one accumulator, started at \<^verbatim>\<open>0.0\<close>, to which the
  squares are added row by row and, in a row, column by column.
\<close>

definition sum_squares :: "'a arith \<Rightarrow> (int \<Rightarrow> int \<Rightarrow> 'a) \<Rightarrow> int \<Rightarrow> int \<Rightarrow> 'a" where
  "sum_squares F a rows cols =
     foldl (\<lambda>s i. foldl (\<lambda>s' j. d_add F s' (d_mul F (a i j) (a i j))) s [0..cols - 1])
       (d_lit F 0) [0..rows - 1]"

text \<open>
  \<open>worker_ready h A B C rows n a b\<close>: the heap is laid out for \<^verbatim>\<open>C = A * B\<close> on a block of \<open>rows\<close>
  rows: \<open>A\<close> holds the \<open>rows x n\<close> matrix \<open>a\<close>, \<open>B\<close> the \<open>n x n\<close> matrix \<open>b\<close>, and \<open>C\<close> is a
  \<open>rows x n\<close> block of its own rows, none of them a row of \<open>A\<close> or \<open>B\<close>.
  \<open>chunk_first\<close> is the first row of a worker's range.
\<close>

definition worker_ready ::
    "'a heap \<Rightarrow> addr \<Rightarrow> addr \<Rightarrow> addr \<Rightarrow> int \<Rightarrow> int \<Rightarrow> (int \<Rightarrow> int \<Rightarrow> 'a) \<Rightarrow> (int \<Rightarrow> int \<Rightarrow> 'a) \<Rightarrow> bool" where
  "worker_ready h A B C rows n a b \<longleftrightarrow>
     holds h A rows n a \<and> holds h B n n b \<and> block h C rows n \<and> own_rows h C rows \<and>
     apart h C rows A rows \<and> apart h C rows B n"

definition chunk_first :: "int \<Rightarrow> int \<Rightarrow> int \<Rightarrow> int" where
  "chunk_first rank nranks global_n =
     (case compute_local_chunk rank nranks global_n of
        Inl e \<Rightarrow> 0
      | Inr (local_start, local_end) \<Rightarrow> local_start)"

text \<open>
  The heap in the middle of \<^verbatim>\<open>allocate_matrix_local(rows, cols)\<close> started on \<open>h\<close>, when the
  pointer array and the first \<open>i\<close> rows have been allocated: the pointer array sits at
  \<open>next_addr h\<close>, row \<open>k\<close> at the \<open>k + 1\<close>-th address after it, and the rows hold what
  \<open>junk h\<close> says.
\<close>

definition alloc_state :: "'a heap \<Rightarrow> int \<Rightarrow> int \<Rightarrow> int \<Rightarrow> 'a heap" where
  "alloc_state h rows cols i =
     h\<lparr>ptr_arrays := (ptr_arrays h)(next_addr h \<mapsto>
          map (\<lambda>k. Some (next_addr h + 1 + k)) [0 ..< nat i] @ replicate (nat rows - nat i) None),
       dbl_arrays := (\<lambda>p. if next_addr h < p \<and> p \<le> next_addr h + nat i
                           then Some (map (junk h p) [0 ..< nat cols]) else dbl_arrays h p),
       next_addr := next_addr h + 1 + nat i,
       avail := avail h - 8 * nat rows - 8 * nat i * nat cols\<rparr>"

text \<open>
  \<open>matrix_at h X rows cols\<close>: the heap holds at \<open>X\<close> a matrix laid out as
  \<^verbatim>\<open>allocate_matrix_local(rows, cols)\<close> leaves it: the pointer array at address \<open>X\<close>, its
  \<open>k\<close>-th entry the address \<open>X + 1 + k\<close>, and there a row of \<open>cols\<close> doubles; all of it below
  \<open>next_addr\<close>.
\<close>

definition matrix_at :: "'a heap \<Rightarrow> addr \<Rightarrow> int \<Rightarrow> int \<Rightarrow> bool" where
  "matrix_at h X rows cols \<longleftrightarrow>
     X + nat rows < next_addr h \<and>
     ptr_arrays h X = Some (map (\<lambda>k. Some (X + 1 + k)) [0 ..< nat rows]) \<and>
     (\<forall>k < nat rows. \<exists>xs. dbl_arrays h (X + 1 + k) = Some xs \<and> length xs = nat cols)"

text \<open>The bytes that one call of \<^verbatim>\<open>allocate_matrix_local(rows, cols)\<close> takes from the allocator.\<close>

definition matrix_bytes :: "int \<Rightarrow> int \<Rightarrow> nat" where
  "matrix_bytes rows cols = 8 * nat rows + 8 * nat rows * nat cols"

section \<open>A small heap\<close>

text \<open>
  Four separate 2 x 2 blocks, as four calls of \<^verbatim>\<open>allocate_matrix_local(2, 2)\<close> lay them out:
  block 0 filled with 1, block 3 with 2, block 6 with 0, and block 9 with the rows
  \<open>5, 6\<close> and \<open>7, 8\<close>.
\<close>

definition example_heap :: "real heap" where
  "example_heap =
     \<lparr>ptr_arrays = [0 \<mapsto> [Some 1, Some 2], 3 \<mapsto> [Some 4, Some 5],
                    6 \<mapsto> [Some 7, Some 8], 9 \<mapsto> [Some 10, Some 11]],
      dbl_arrays = [1 \<mapsto> [1, 1], 2 \<mapsto> [1, 1], 4 \<mapsto> [2, 2], 5 \<mapsto> [2, 2],
                    7 \<mapsto> [0, 0], 8 \<mapsto> [0, 0], 10 \<mapsto> [5, 6], 11 \<mapsto> [7, 8]],
      next_addr = 12,
      avail = 1024,
      junk = (\<lambda>p j. 7)\<rparr>"

section \<open>The two programs\<close>

text \<open>
  What a run of \<^verbatim>\<open>main\<close> leaves behind: the exit status, the lines written to \<^verbatim>\<open>stderr\<close>,
  the norms printed (in the order of the \<^verbatim>\<open>printf\<close> calls) and the heap.  The argument
  \<open>argv1\<close> is \<open>None\<close> when no matrix size is given (\<^verbatim>\<open>argc \<le> 1\<close>) and otherwise the \<^verbatim>\<open>int\<close>
  that \<^verbatim>\<open>atoi(argv[1])\<close> returns.  The progress messages, \<^verbatim>\<open>print_matrix\<close>, the timer and
  the busy loops (\<^verbatim>\<open>busy_wait_function\<close>, \<^verbatim>\<open>lightweight_function\<close>, \<^verbatim>\<open>busy_wait_compute\<close>)
  touch neither the matrices nor the results and are left out.
\<close>

record 'a run =
  status :: int
  err_output :: "string list"
  norms :: "'a list"
  mem :: "'a heap"

definition serial_main :: "'a arith \<Rightarrow> int option \<Rightarrow> 'a heap \<Rightarrow> error + 'a run" where
  "serial_main F argv1 h =
     (let n = (case argv1 of None \<Rightarrow> 500 | Some v \<Rightarrow> v) in
      if argv1 \<noteq> None \<and> n \<le> 0
      then Inr \<lparr>status = 1, err_output = [''Matrix size must be positive''], norms = [], mem = h\<rparr>
      else
        bind (allocate_matrix n h) (\<lambda>(A, h).
        bind (allocate_matrix n h) (\<lambda>(B, h).
        bind (allocate_matrix n h) (\<lambda>(C, h).
        bind (allocate_matrix n h) (\<lambda>(D, h).
        bind (allocate_matrix n h) (\<lambda>(AT, h).
        bind (initialize_matrix A n (d_lit F 1) h) (\<lambda>h.
        bind (initialize_matrix B n (d_lit F 2) h) (\<lambda>h.
        bind (initialize_matrix C n (d_lit F 0) h) (\<lambda>h.
        bind (initialize_matrix D n (d_lit F 0) h) (\<lambda>h.
        bind (initialize_matrix AT n (d_lit F 0) h) (\<lambda>h.
        bind (matrix_multiply F A B C n h) (\<lambda>h.
        bind (matrix_add F C A D n h) (\<lambda>h.
        bind (matrix_transpose A AT n h) (\<lambda>h.
        bind (compute_frobenius_norm F C n h) (\<lambda>(norm_C, h).
        bind (compute_frobenius_norm F D n h) (\<lambda>(norm_D, h).
        bind (free_matrix A n h) (\<lambda>h.
        bind (free_matrix B n h) (\<lambda>h.
        bind (free_matrix C n h) (\<lambda>h.
        bind (free_matrix D n h) (\<lambda>h.
        bind (free_matrix AT n h) (\<lambda>h.
        Inr \<lparr>status = 0, err_output = [], norms = [norm_C, norm_D], mem = h\<rparr>
        )))))))))))))))))))))"

text \<open>
  The MPI program runs \<^verbatim>\<open>main\<close> once in every process, each with its own heap.  A process
  either returns before the collective calls, or reaches \<^verbatim>\<open>MPI_Reduce\<close> with its partial sum;
  \<open>'a worker\<close> is what it has at that point.
\<close>

record 'a worker =
  w_local_norm :: 'a
  w_heap :: "'a heap"
  w_A_local :: addr
  w_B :: addr
  w_C_local :: addr
  w_D_local :: addr
  w_local_rows :: int
  w_global_n :: int

datatype 'a reached = Returned "'a run" | Reduce "'a worker"

definition mpi_main_to_reduce ::
    "'a arith \<Rightarrow> int \<Rightarrow> int \<Rightarrow> int option \<Rightarrow> 'a heap \<Rightarrow> error + 'a reached" where
  "mpi_main_to_reduce F rank nranks argv1 h =
     (let global_n = (case argv1 of None \<Rightarrow> 500 | Some v \<Rightarrow> v) in
      if argv1 \<noteq> None \<and> global_n \<le> 0
      then Inr (Returned
             \<lparr>status = 1,
              err_output = (if rank = 0 then [''Matrix size must be positive''] else []),
              norms = [], mem = h\<rparr>)
      else
        bind (compute_local_chunk rank nranks global_n) (\<lambda>(local_start, local_end).
        bind (c_int (local_end - local_start)) (\<lambda>local_rows.
        bind (allocate_matrix_local local_rows global_n h) (\<lambda>(A_local, h).
        bind (allocate_matrix_local global_n global_n h) (\<lambda>(B, h).
        bind (allocate_matrix_local local_rows global_n h) (\<lambda>(C_local, h).
        bind (allocate_matrix_local local_rows global_n h) (\<lambda>(D_local, h).
        bind (initialize_matrix_local A_local local_rows global_n (d_lit F 1) h) (\<lambda>h.
        bind (initialize_matrix_local B global_n global_n (d_lit F 2) h) (\<lambda>h.
        bind (initialize_matrix_local C_local local_rows global_n (d_lit F 0) h) (\<lambda>h.
        bind (initialize_matrix_local D_local local_rows global_n (d_lit F 0) h) (\<lambda>h.
        bind (matrix_multiply_local F A_local B C_local local_rows global_n h) (\<lambda>h.
        bind (matrix_add_local F C_local A_local D_local local_rows global_n h) (\<lambda>h.
        bind (compute_local_norm F C_local local_rows global_n h) (\<lambda>(local_norm, h).
        Inr (Reduce
          \<lparr>w_local_norm = local_norm, w_heap = h, w_A_local = A_local, w_B = B,
           w_C_local = C_local, w_D_local = D_local, w_local_rows = local_rows,
           w_global_n = global_n\<rparr>)
        ))))))))))))))"

text \<open>
  After the reduction only rank 0 holds the sum; it takes the square root and prints it.
  Then every process frees its matrices and returns 0.
\<close>

definition mpi_main_after_reduce :: "'a arith \<Rightarrow> int \<Rightarrow> 'a \<Rightarrow> 'a worker \<Rightarrow> error + 'a run" where
  "mpi_main_after_reduce F rank global_norm w =
     bind (free_matrix_local (w_A_local w) (w_local_rows w) (w_heap w)) (\<lambda>h.
     bind (free_matrix_local (w_B w) (w_global_n w) h) (\<lambda>h.
     bind (free_matrix_local (w_C_local w) (w_local_rows w) h) (\<lambda>h.
     bind (free_matrix_local (w_D_local w) (w_local_rows w) h) (\<lambda>h.
     Inr \<lparr>status = 0, err_output = [],
          norms = (if rank = 0 then [d_sqrt F global_norm] else []), mem = h\<rparr>))))"

text \<open>
  \<^verbatim>\<open>MPI_Reduce\<close> with \<^verbatim>\<open>MPI_SUM\<close> belongs to the MPI library; it is taken to add the
  contributions in rank order, starting from that of rank 0, and a reduction over no
  contribution to give \<^verbatim>\<open>0.0\<close>.  \<open>contributions\<close> collects the partial sums when every
  process has reached the reduction.
\<close>

fun reduce_sum :: "'a arith \<Rightarrow> 'a list \<Rightarrow> 'a" where
  "reduce_sum F [] = d_lit F 0"
| "reduce_sum F (x # xs) = foldl (d_add F) x xs"

fun contributions :: "(error + 'a reached) list \<Rightarrow> 'a list option" where
  "contributions [] = Some []"
| "contributions (Inr (Reduce w) # rs) = map_option ((#) (w_local_norm w)) (contributions rs)"
| "contributions (_ # rs) = None"

text \<open>
  The outcome of process \<open>rank\<close> when the processes \<open>0, ..., nranks - 1\<close> start on the heaps
  \<open>hs 0, ..., hs (nranks - 1)\<close>.  When some process ends before the collective calls while
  this one waits in them, this one never returns: \<open>Collective_Stall\<close>.
\<close>

definition mpi_program ::
    "'a arith \<Rightarrow> int \<Rightarrow> int option \<Rightarrow> (int \<Rightarrow> 'a heap) \<Rightarrow> int \<Rightarrow> error + 'a run" where
  "mpi_program F nranks argv1 hs rank =
     (case mpi_main_to_reduce F rank nranks argv1 (hs rank) of
        Inl e \<Rightarrow> Inl e
      | Inr (Returned r) \<Rightarrow> Inr r
      | Inr (Reduce w) \<Rightarrow>
          (case contributions (map (\<lambda>r. mpi_main_to_reduce F r nranks argv1 (hs r)) [0..nranks - 1]) of
             None \<Rightarrow> Inl Collective_Stall
           | Some xs \<Rightarrow> mpi_main_after_reduce F rank (reduce_sum F xs) w))"

lemma bind_Inr [simp]: "bind (Inr x) f = f x"
  by (simp add: bind_def)

lemma bind_Inl [simp]: "bind (Inl e) f = Inl e"
  by (simp add: bind_def)

lemma c_int_ok: "int_ok x \<Longrightarrow> c_int x = Inr x"
  by (simp add: c_int_def)

lemma c_div_nonneg:
  assumes "0 \<le> a" "a \<le> INT_MAX" "0 < b"
  shows "c_div a b = Inr (a div b)"
proof -
  have "a sdiv b = a div b"
    using assms by (simp add: signed_divide_int_eq_divide_int sgn_if) 
  moreover have "0 \<le> a div b" using assms by (simp add: pos_imp_zdiv_nonneg_iff)
  moreover have "a div b \<le> a" using zdiv_mono2 [of a 1 b] assms by simp
  ultimately show ?thesis using assms
    by (simp add: c_div_def c_int_def int_ok_def INT_MIN_def)
qed

lemma c_mod_nonneg:
  assumes "0 \<le> a" "a \<le> INT_MAX" "0 < b"
  shows "c_mod a b = Inr (a mod b)"
proof -
  have "a sdiv b = a div b"
    using assms by (simp add: signed_divide_int_eq_divide_int sgn_if) 
  moreover have "0 \<le> a div b" using assms by (simp add: pos_imp_zdiv_nonneg_iff)
  moreover have "a div b \<le> a" using zdiv_mono2 [of a 1 b] assms by simp
  moreover have "a smod b = a mod b" using assms by (simp add: smod_mod_positive)
  ultimately show ?thesis using assms
    by (simp add: c_mod_def int_ok_def INT_MIN_def)
qed

lemma split_point_0: "split_point 0 nranks n = 0 \<or> n mod nranks < 0"
  by (auto simp: split_point_def min_def)

lemma split_point_step:
  "split_point (r + 1) nranks n =
     split_point r nranks n + n div nranks + (if r < n mod nranks then 1 else 0)"
  by (simp add: split_point_def min_def algebra_simps)

lemma split_point_last:
  "0 < nranks \<Longrightarrow> split_point nranks nranks n = n"
proof -
  assume "0 < nranks"
  then have "n mod nranks < nranks" by simp
  then show ?thesis by (simp add: split_point_def min_def)
qed

lemma split_point_le_next:
  "0 < nranks \<Longrightarrow> 0 \<le> n \<Longrightarrow> split_point r nranks n \<le> split_point (r + 1) nranks n"
  by (simp add: split_point_step pos_imp_zdiv_nonneg_iff)

lemma split_point_mono:
  assumes "0 < nranks" "0 \<le> n" "r \<le> r'"
  shows "split_point r nranks n \<le> split_point r' nranks n"
  using assms(3)
proof (induction r' rule: int_ge_induct)
  case base
  show ?case by simp
next
  case (step i)
  with split_point_le_next [OF assms(1,2), of i] show ?case by linarith
qed

lemma split_point_nonneg:
  assumes "0 < nranks" "0 \<le> n" "0 \<le> r"
  shows "0 \<le> split_point r nranks n"
  using split_point_mono [OF assms(1,2,3)] assms by (simp add: split_point_def)

lemma compute_local_chunk_valid:
  assumes "0 \<le> rank" "rank < nranks" "nranks \<le> INT_MAX" "0 \<le> n" "n \<le> INT_MAX"
  shows "compute_local_chunk rank nranks n =
           Inr (split_point rank nranks n, split_point (rank + 1) nranks n)"
proof -
  let ?b = "n div nranks" and ?m = "n mod nranks"
  have pos: "0 < nranks" using assms by simp
  have b0: "0 \<le> ?b" using assms pos by (simp add: pos_imp_zdiv_nonneg_iff)
  have m0: "0 \<le> ?m" using pos by simp
  have last: "split_point (rank + 1) nranks n \<le> n"
    using split_point_mono [OF pos assms(4), of "rank + 1" nranks] assms(2)
    by (simp add: split_point_last [OF pos])
  have s0: "0 \<le> split_point rank nranks n"
    using split_point_nonneg [OF pos assms(4,1)] .
  have s1: "split_point rank nranks n \<le> split_point (rank + 1) nranks n"
    using split_point_le_next [OF pos assms(4)] .
  have p0: "0 \<le> rank * ?b" using assms(1) b0 by simp
  have p1: "rank * ?b \<le> split_point rank nranks n"
    using assms(1) m0 by (simp add: split_point_def)
  have q1: "split_point rank nranks n + ?b \<le> split_point (rank + 1) nranks n"
    by (simp add: split_point_step)
  have ok1: "int_ok (rank * ?b)"
    using p0 p1 s1 last assms(5) by (simp add: int_ok_def INT_MIN_def)
  have ok2: "int_ok (split_point rank nranks n)"
    using s0 s1 last assms(5) by (simp add: int_ok_def INT_MIN_def)
  have ok3: "int_ok (split_point rank nranks n + ?b)"
    using s0 b0 q1 last assms(5) by (simp add: int_ok_def INT_MIN_def)
  have ok4: "int_ok (split_point (rank + 1) nranks n)"
    using s0 s1 last assms(5) by (simp add: int_ok_def INT_MIN_def)
  have e2: "rank * ?b + (if rank < ?m then rank else ?m) = split_point rank nranks n"
    by (simp add: split_point_def min_def)
  have e4: "split_point rank nranks n + ?b + (if rank < ?m then 1 else 0)
              = split_point (rank + 1) nranks n"
    by (simp add: split_point_step)
  show ?thesis
    unfolding compute_local_chunk_def
    by (simp only: c_div_nonneg [OF assms(4,5) pos] c_mod_nonneg [OF assms(4,5) pos]
          bind_Inr c_int_ok [OF ok1] e2 c_int_ok [OF ok2] c_int_ok [OF ok3] e4 c_int_ok [OF ok4])
qed

lemma consecutive_union:
  fixes f :: "int \<Rightarrow> int"
  assumes "0 \<le> k" "\<And>r. 0 \<le> r \<Longrightarrow> r < k \<Longrightarrow> f r \<le> f (r + 1)"
  shows "(\<Union>r\<in>{0..<k}. {f r ..< f (r + 1)}) = {f 0 ..< f k}"
  using assms
proof (induction k rule: int_ge_induct)
  case base
  show ?case by simp
next
  case (step i)
  have mono: "f 0 \<le> f i"
    using step.hyps step.prems
  proof (induction i rule: int_ge_induct)
    case base show ?case by simp
  next
    case (step j)
    then show ?case by (smt (verit))
  qed
  have split: "{0..<i + 1} = insert i {0..<i}" using step.hyps by auto
  have IH: "(\<Union>r\<in>{0..<i}. {f r ..< f (r + 1)}) = {f 0 ..< f i}"
    using step.IH step.prems by simp
  have "f i \<le> f (i + 1)" using step.prems step.hyps by simp
  then have "{f 0 ..< f i} \<union> {f i ..< f (i + 1)} = {f 0 ..< f (i + 1)}"
    using mono by auto
  then show ?case unfolding split using IH by auto
qed

lemma chunk_rows_valid:
  assumes "0 \<le> rank" "rank < nranks" "nranks \<le> INT_MAX" "0 \<le> n" "n \<le> INT_MAX"
  shows "chunk_rows rank nranks n = {split_point rank nranks n ..< split_point (rank + 1) nranks n}"
  by (simp add: chunk_rows_def compute_local_chunk_valid [OF assms])

lemma chunk_count_valid:
  assumes "0 \<le> rank" "rank < nranks" "nranks \<le> INT_MAX" "0 \<le> n" "n \<le> INT_MAX"
  shows "chunk_count rank nranks n = n div nranks + (if rank < n mod nranks then 1 else 0)"
  by (simp add: chunk_count_def compute_local_chunk_valid [OF assms] split_point_step)

lemma chunk_rows_disjoint:
  assumes "0 \<le> r" "r < r'" "r' < nranks" "nranks \<le> INT_MAX" "0 \<le> n" "n \<le> INT_MAX"
  shows "chunk_rows r nranks n \<inter> chunk_rows r' nranks n = {}"
proof -
  have pos: "0 < nranks" using assms by simp
  have "split_point (r + 1) nranks n \<le> split_point r' nranks n"
    using split_point_mono [OF pos assms(5), of "r + 1" r'] assms(2) by simp
  moreover have "chunk_rows r nranks n = {split_point r nranks n ..< split_point (r + 1) nranks n}"
    using chunk_rows_valid [of r nranks n] assms by simp
  moreover have "chunk_rows r' nranks n = {split_point r' nranks n ..< split_point (r' + 1) nranks n}"
    using chunk_rows_valid [of r' nranks n] assms by simp
  ultimately show ?thesis by auto
qed

lemma chunk_rows_union:
  assumes "1 \<le> nranks" "nranks \<le> INT_MAX" "0 \<le> n" "n \<le> INT_MAX"
  shows "(\<Union>r\<in>{0..<nranks}. chunk_rows r nranks n) = {0..<n}"
proof -
  have pos: "0 < nranks" using assms by simp
  have "(\<Union>r\<in>{0..<nranks}. chunk_rows r nranks n)
          = (\<Union>r\<in>{0..<nranks}. {split_point r nranks n ..< split_point (r + 1) nranks n})"
    using chunk_rows_valid [OF _ _ assms(2,3,4)] by simp
  also have "\<dots> = {split_point 0 nranks n ..< split_point nranks nranks n}"
    using consecutive_union [of nranks "\<lambda>r. split_point r nranks n"]
      split_point_le_next [OF pos assms(3)] pos by simp
  also have "\<dots> = {0..<n}"
    using split_point_last [OF pos] pos by (simp add: split_point_def)
  finally show ?thesis .
qed

lemma chunk_rows_short_empty:
  assumes "0 \<le> n" "n \<le> r" "r < nranks" "nranks \<le> INT_MAX"
  shows "chunk_rows r nranks n = {}"
proof -
  have "n < nranks" using assms by simp
  then have "n div nranks = 0" "n mod nranks = n" using assms(1) by simp_all
  then have "split_point (r + 1) nranks n = split_point r nranks n"
    using assms(2) by (simp add: split_point_step)
  moreover have "chunk_rows r nranks n = {split_point r nranks n ..< split_point (r + 1) nranks n}"
    using chunk_rows_valid [of r nranks n] assms by (simp add: INT_MAX_def)
  ultimately show ?thesis by simp
qed

section \<open>Claims about the partitioner\<close>

text \<open>
  C1.  For every row count \<open>n \<ge> 0\<close> and worker count \<open>nranks \<ge> 1\<close> that an \<^verbatim>\<open>int\<close> can hold,
  every call of \<^verbatim>\<open>compute_local_chunk\<close> for a worker id in \<open>0..<nranks\<close> returns a range; the
  ranges of two different workers are disjoint; their union is exactly \<open>[0, n)\<close>, so every row
  index lies in the range of exactly one worker; the workers from \<open>n\<close> on have an empty range
  (which is every worker when \<open>n = 0\<close>).
\<close>

theorem partition_disjoint_cover:
  assumes "1 \<le> nranks" "nranks \<le> INT_MAX" "0 \<le> n" "n \<le> INT_MAX"
  shows "(\<forall>r\<in>{0..<nranks}. \<exists>s e. compute_local_chunk r nranks n = Inr (s, e) \<and> s \<le> e)
       \<and> (\<forall>r\<in>{0..<nranks}. \<forall>r'\<in>{0..<nranks}. r \<noteq> r' \<longrightarrow>
             chunk_rows r nranks n \<inter> chunk_rows r' nranks n = {})
       \<and> (\<Union>r\<in>{0..<nranks}. chunk_rows r nranks n) = {0..<n}
       \<and> (\<forall>i\<in>{0..<n}. \<exists>!r. r \<in> {0..<nranks} \<and> i \<in> chunk_rows r nranks n)
       \<and> (\<forall>r\<in>{n..<nranks}. chunk_rows r nranks n = {})"
proof (intro conjI)
  have pos: "0 < nranks" using assms by simp
  show "\<forall>r\<in>{0..<nranks}. \<exists>s e. compute_local_chunk r nranks n = Inr (s, e) \<and> s \<le> e"
    using compute_local_chunk_valid [OF _ _ assms(2,3,4)] split_point_le_next [OF pos assms(3)]
    by simp
  show disj: "\<forall>r\<in>{0..<nranks}. \<forall>r'\<in>{0..<nranks}. r \<noteq> r' \<longrightarrow>
             chunk_rows r nranks n \<inter> chunk_rows r' nranks n = {}"
  proof (intro ballI impI)
    fix r r' assume r: "r \<in> {0..<nranks}" "r' \<in> {0..<nranks}" "r \<noteq> r'"
    then consider "r < r'" | "r' < r" by linarith
    then show "chunk_rows r nranks n \<inter> chunk_rows r' nranks n = {}"
    proof cases
      case 1
      then show ?thesis using chunk_rows_disjoint [of r r' nranks n] r assms by simp
    next
      case 2
      then have "chunk_rows r' nranks n \<inter> chunk_rows r nranks n = {}"
        using chunk_rows_disjoint [of r' r nranks n] r assms by simp
      then show ?thesis by (simp add: Int_commute)
    qed
  qed
  show un: "(\<Union>r\<in>{0..<nranks}. chunk_rows r nranks n) = {0..<n}"
    using chunk_rows_union [OF assms] .
  show "\<forall>i\<in>{0..<n}. \<exists>!r. r \<in> {0..<nranks} \<and> i \<in> chunk_rows r nranks n"
  proof
    fix i assume "i \<in> {0..<n}"
    then have "i \<in> (\<Union>r\<in>{0..<nranks}. chunk_rows r nranks n)" using un by simp
    then obtain r where r: "r \<in> {0..<nranks}" "i \<in> chunk_rows r nranks n" by blast
    show "\<exists>!r. r \<in> {0..<nranks} \<and> i \<in> chunk_rows r nranks n"
    proof (rule ex1I [of _ r])
      show "r \<in> {0..<nranks} \<and> i \<in> chunk_rows r nranks n" using r by simp
    next
      fix r' assume r': "r' \<in> {0..<nranks} \<and> i \<in> chunk_rows r' nranks n"
      show "r' = r"
      proof (rule ccontr)
        assume "r' \<noteq> r"
        then have "chunk_rows r nranks n \<inter> chunk_rows r' nranks n = {}"
          using disj r r' by blast
        then show False using r r' by blast
      qed
    qed
  qed
  show "\<forall>r\<in>{n..<nranks}. chunk_rows r nranks n = {}"
    using chunk_rows_short_empty [OF assms(3) _ _ assms(2)] by simp
qed

theorem partition_disjoint_cover_witness:
  "(1::int) \<le> 3 \<and> 3 \<le> INT_MAX \<and> (0::int) \<le> 2 \<and> 2 \<le> INT_MAX
   \<and> compute_local_chunk 0 3 2 = Inr (0, 1)
   \<and> compute_local_chunk 1 3 2 = Inr (1, 2)
   \<and> compute_local_chunk 2 3 2 = Inr (2, 2)
   \<and> chunk_rows 0 3 2 \<inter> chunk_rows 1 3 2 = {}
   \<and> (\<Union>r\<in>{0..<3}. chunk_rows r 3 2) = {0..<2}
   \<and> chunk_rows 2 3 2 = {}"
proof -
  have h: "(1::int) \<le> 3" "3 \<le> INT_MAX" "(0::int) \<le> 2" "2 \<le> INT_MAX"
    by (simp_all add: INT_MAX_def)
  have c: "compute_local_chunk 0 3 2 = Inr (0, 1)" "compute_local_chunk 1 3 2 = Inr (1, 2)"
    "compute_local_chunk 2 3 2 = Inr (2, 2)"
    by (simp_all add: compute_local_chunk_def c_div_def c_mod_def c_int_def int_ok_def
          INT_MIN_def INT_MAX_def)
  from partition_disjoint_cover [OF h]
  have "chunk_rows 0 3 2 \<inter> chunk_rows 1 3 2 = {}"
    and "(\<Union>r\<in>{0..<3}. chunk_rows r 3 2) = {0..<2}"
    and "chunk_rows 2 3 2 = {}"
    by simp_all
  with h c show ?thesis by simp
qed

text \<open>
  C2.  For a worker id \<open>0 \<le> rank < nranks\<close> and \<open>n \<ge> 0\<close> the call returns exactly
  \<open>start = rank * (n div nranks) + min rank (n mod nranks)\<close> and
  \<open>end = start + n div nranks + (if rank < n mod nranks then 1 else 0)\<close>.  So a worker has
  one row more than the base count exactly when its id is below the remainder, the counts
  never grow with the worker id, any two counts differ by at most one, and \<open>n = 4\<close> rows on
  three workers are split as \<open>[0,2)\<close>, \<open>[2,3)\<close>, \<open>[3,4)\<close>.
\<close>

theorem partition_closed_form:
  assumes "0 \<le> rank" "rank < nranks" "0 \<le> rank'" "rank' < nranks"
    and "nranks \<le> INT_MAX" "0 \<le> n" "n \<le> INT_MAX"
  shows "compute_local_chunk rank nranks n =
           Inr (rank * (n div nranks) + min rank (n mod nranks),
                rank * (n div nranks) + min rank (n mod nranks)
                  + n div nranks + (if rank < n mod nranks then 1 else 0))
       \<and> chunk_count rank nranks n = n div nranks + (if rank < n mod nranks then 1 else 0)
       \<and> \<bar>chunk_count rank nranks n - chunk_count rank' nranks n\<bar> \<le> 1
       \<and> (rank \<le> rank' \<longrightarrow> chunk_count rank' nranks n \<le> chunk_count rank nranks n)
       \<and> map (\<lambda>r. compute_local_chunk r 3 4) [0, 1, 2] = [Inr (0, 2), Inr (2, 3), Inr (3, 4)]"
proof (intro conjI)
  have v: "compute_local_chunk rank nranks n =
             Inr (split_point rank nranks n, split_point (rank + 1) nranks n)"
    using compute_local_chunk_valid [OF assms(1,2,5,6,7)] .
  show "compute_local_chunk rank nranks n =
           Inr (rank * (n div nranks) + min rank (n mod nranks),
                rank * (n div nranks) + min rank (n mod nranks)
                  + n div nranks + (if rank < n mod nranks then 1 else 0))"
    unfolding v split_point_step by (simp add: split_point_def)
  have c: "chunk_count rank nranks n = n div nranks + (if rank < n mod nranks then 1 else 0)"
    using chunk_count_valid [OF assms(1,2,5,6,7)] .
  have c': "chunk_count rank' nranks n = n div nranks + (if rank' < n mod nranks then 1 else 0)"
    using chunk_count_valid [OF assms(3,4,5,6,7)] .
  show "chunk_count rank nranks n = n div nranks + (if rank < n mod nranks then 1 else 0)"
    using c .
  show "\<bar>chunk_count rank nranks n - chunk_count rank' nranks n\<bar> \<le> 1"
    unfolding c c' by simp
  show "rank \<le> rank' \<longrightarrow> chunk_count rank' nranks n \<le> chunk_count rank nranks n"
    unfolding c c' by simp
  show "map (\<lambda>r. compute_local_chunk r 3 4) [0, 1, 2] = [Inr (0, 2), Inr (2, 3), Inr (3, 4)]"
    by (simp add: compute_local_chunk_def c_div_def c_mod_def c_int_def int_ok_def
          INT_MIN_def INT_MAX_def)
qed

theorem partition_closed_form_witness:
  "(0::int) \<le> 1 \<and> (1::int) < 4 \<and> (0::int) \<le> 3 \<and> (3::int) < 4 \<and> 4 \<le> INT_MAX
   \<and> (0::int) \<le> 10 \<and> 10 \<le> INT_MAX
   \<and> compute_local_chunk 1 4 10 = Inr (3, 6)
   \<and> chunk_count 1 4 10 = 3
   \<and> \<bar>chunk_count 1 4 10 - chunk_count 3 4 10\<bar> \<le> 1
   \<and> chunk_count 3 4 10 \<le> chunk_count 1 4 10"
proof -
  have h: "(0::int) \<le> 1" "(1::int) < 4" "(0::int) \<le> 3" "(3::int) < 4" "4 \<le> INT_MAX"
    "(0::int) \<le> 10" "10 \<le> INT_MAX"
    by (simp_all add: INT_MAX_def)
  note t = partition_closed_form [OF h]
  have a: "compute_local_chunk 1 4 10 = Inr (3, 6)" using t by simp
  have b: "chunk_count 1 4 10 = 3" using t by simp
  have c: "\<bar>chunk_count 1 4 10 - chunk_count 3 4 10\<bar> \<le> 1" using t by blast
  have d: "chunk_count 3 4 10 \<le> chunk_count 1 4 10" using t by simp
  show ?thesis by (intro conjI h a b c d)
qed

section \<open>Loops and memory accesses\<close>

lemma for_loop_done: "hi \<le> i \<Longrightarrow> for_loop i hi body s = Inr s"
  by (subst for_loop.simps) simp

lemma for_loop_step:
  "i < hi \<Longrightarrow> for_loop i hi body s = bind (body i s) (for_loop (i + 1) hi body)"
  by (subst for_loop.simps) (simp add: bind_def)

lemma for_loop_invariant:
  assumes "lo \<le> hi" and "I lo s"
    and "\<And>i t. lo \<le> i \<Longrightarrow> i < hi \<Longrightarrow> I i t \<Longrightarrow> \<exists>t'. body i t = Inr t' \<and> I (i + 1) t'"
  shows "\<exists>s'. for_loop lo hi body s = Inr s' \<and> I hi s'"
proof -
  have "lo \<le> i \<Longrightarrow> i \<le> hi \<Longrightarrow> I i s \<Longrightarrow> \<exists>s'. for_loop i hi body s = Inr s' \<and> I hi s'"
    for i s
  proof (induction "nat (hi - i)" arbitrary: i s)
    case 0
    then have "i = hi" by simp
    then show ?case using "0.prems" by (simp add: for_loop_done)
  next
    case (Suc d)
    then have lt: "i < hi" by simp
    from assms(3) [OF Suc.prems(1) lt Suc.prems(3)]
    obtain t' where t': "body i s = Inr t'" "I (i + 1) t'" by blast
    have "d = nat (hi - (i + 1))" using Suc.hyps(2) by simp
    from Suc.hyps(1) [OF this _ _ t'(2)] Suc.prems(1) lt
    have "\<exists>s'. for_loop (i + 1) hi body t' = Inr s' \<and> I hi s'" by simp
    then show ?case using lt t'(1) by (simp add: for_loop_step)
  qed
  from this [of lo s] assms show ?thesis by simp
qed

lemma for_loop_empty: "hi \<le> 0 \<Longrightarrow> for_loop 0 hi body s = Inr s"
  by (rule for_loop_done)

lemma same_shape_refl: "same_shape h h"
  by (simp add: same_shape_def)

lemma same_shape_trans: "same_shape h h1 \<Longrightarrow> same_shape h1 h2 \<Longrightarrow> same_shape h h2"
  by (simp add: same_shape_def)

lemma same_shape_row_of: "same_shape h h' \<Longrightarrow> row_of h' m i = row_of h m i"
  by (simp add: same_shape_def row_of_def)

lemma same_shape_block: "same_shape h h' \<Longrightarrow> block h' m rows cols = block h m rows cols"
proof -
  assume s: "same_shape h h'"
  have "(case dbl_arrays h' p of None \<Rightarrow> False | Some xs \<Rightarrow> cols \<le> int (length xs))
      = (case dbl_arrays h p of None \<Rightarrow> False | Some xs \<Rightarrow> cols \<le> int (length xs))" for p
  proof -
    have "map_option length (dbl_arrays h' p) = map_option length (dbl_arrays h p)"
      using s by (simp add: same_shape_def)
    then show ?thesis by (cases "dbl_arrays h' p"; cases "dbl_arrays h p") auto
  qed
  then show ?thesis
    by (simp add: block_def same_shape_row_of [OF s] cong: option.case_cong)
qed

lemma same_shape_own_rows: "same_shape h h' \<Longrightarrow> own_rows h' m rows = own_rows h m rows"
  by (simp add: own_rows_def same_shape_row_of)

lemma same_shape_apart: "same_shape h h' \<Longrightarrow> apart h' m r m' r' = apart h m r m' r'"
  by (simp add: apart_def same_shape_row_of)

lemma same_shape_in_block:
  "same_shape h h' \<Longrightarrow> in_block h' m r c m' i' j' = in_block h m r c m' i' j'"
  by (simp add: in_block_def same_shape_row_of)

lemma block_cell:
  assumes "block h m rows cols" "i \<in> {0..<rows}" "j \<in> {0..<cols}"
  shows "\<exists>p xs. row_of h m i = Some p \<and> dbl_arrays h p = Some xs \<and> 0 \<le> j \<and> nat j < length xs"
proof -
  from assms(1,2) have c: "case row_of h m i of None \<Rightarrow> False
        | Some p \<Rightarrow> (case dbl_arrays h p of None \<Rightarrow> False | Some xs \<Rightarrow> cols \<le> int (length xs))"
    unfolding block_def by blast
  then obtain p where p: "row_of h m i = Some p" by (cases "row_of h m i") simp_all
  with c obtain xs where xs: "dbl_arrays h p = Some xs" "cols \<le> int (length xs)"
    by (cases "dbl_arrays h p") simp_all
  have "0 \<le> j" "nat j < length xs" using assms(3) xs(2) by auto
  with p xs show ?thesis by simp
qed

lemma block_load:
  assumes "block h m rows cols" "i \<in> {0..<rows}" "j \<in> {0..<cols}"
  shows "\<exists>v. load h m i j = Inr v"
  using block_cell [OF assms] by (auto simp: load_def)

lemma block_store:
  assumes "block h m rows cols" "i \<in> {0..<rows}" "j \<in> {0..<cols}"
  shows "\<exists>h'. store m i j v h = Inr h'"
  using block_cell [OF assms] by (auto simp: store_def)

lemma holds_load: "holds h m rows cols a \<Longrightarrow> i \<in> {0..<rows} \<Longrightarrow> j \<in> {0..<cols} \<Longrightarrow> load h m i j = Inr (a i j)"
  by (simp add: holds_def)

lemma store_same_shape: "store m i j v h = Inr h' \<Longrightarrow> same_shape h h'"
  by (auto simp: store_def same_shape_def split: option.splits if_splits)

lemma load_store:
  assumes "store m i j v h = Inr h'"
  shows "load h' m' i' j' = (if row_of h m' i' = row_of h m i \<and> j' = j then Inr v else load h m' i' j')"
proof -
  from assms obtain p xs where p: "row_of h m i = Some p" "dbl_arrays h p = Some xs"
    "0 \<le> j" "nat j < length xs" "h' = h\<lparr>dbl_arrays := (dbl_arrays h)(p \<mapsto> xs[nat j := v])\<rparr>"
    by (auto simp: store_def split: option.splits if_splits)
  have r: "row_of h' m' i' = row_of h m' i'" by (simp add: p(5) row_of_def)
  show ?thesis
  proof (cases "row_of h m' i'")
    case None
    then show ?thesis using r p(1) by (simp add: load_def)
  next
    case (Some q)
    show ?thesis
    proof (cases "q = p")
      case True
      then show ?thesis using Some r p
        by (auto simp: load_def nth_list_update)
    next
      case False
      then show ?thesis using Some r p by (simp add: load_def)
    qed
  qed
qed

lemma in_block_next_row:
  "0 \<le> i \<Longrightarrow> in_block h C (i + 1) cols m' i' j' \<longleftrightarrow>
     in_block h C i cols m' i' j' \<or> (row_of h m' i' = row_of h C i \<and> j' \<in> {0..<cols})"
proof -
  assume "0 \<le> i"
  then have "{0..<i + 1} = insert i {0..<i}" by auto
  then show ?thesis by (auto simp: in_block_def)
qed

lemma in_block_mono:
  "in_block h C i cols m' i' j' \<Longrightarrow> i \<le> rows \<Longrightarrow> in_block h C rows cols m' i' j'"
  by (auto simp: in_block_def)

lemma fill_row:
  assumes i: "0 \<le> i" "i < rows"
    and sh: "same_shape h h1"
    and fr1: "\<forall>m' i' j'. \<not> in_block h C rows cols m' i' j' \<longrightarrow> load h1 m' i' j' = load h m' i' j'"
    and step: "\<And>j h2. j \<in> {0..<cols} \<Longrightarrow> same_shape h h2 \<Longrightarrow>
        (\<forall>m' i' j'. \<not> in_block h C rows cols m' i' j' \<longrightarrow> load h2 m' i' j' = load h m' i' j') \<Longrightarrow>
        \<exists>h3. body j h2 = Inr h3 \<and> same_shape h2 h3 \<and>
          (\<forall>m' i' j'. load h3 m' i' j' =
             (if row_of h2 m' i' = row_of h2 C i \<and> j' = j then Inr (g j) else load h2 m' i' j'))"
  shows "\<exists>h'. for_loop 0 cols body h1 = Inr h' \<and> same_shape h h' \<and>
           (\<forall>m' i' j'. load h' m' i' j' =
             (if row_of h m' i' = row_of h C i \<and> j' \<in> {0..<cols} then Inr (g j') else load h1 m' i' j'))"
proof (cases "0 \<le> cols")
  case False
  then show ?thesis using sh by (simp add: for_loop_done)
next
  case True
  define J where "J j h2 \<longleftrightarrow> same_shape h h2 \<and>
           (\<forall>m' i' j'. load h2 m' i' j' =
             (if row_of h m' i' = row_of h C i \<and> j' \<in> {0..<j} then Inr (g j') else load h1 m' i' j'))"
    for j h2
  have J0: "J 0 h1" using sh by (simp add: J_def)
  have Jstep: "\<exists>t'. body j t = Inr t' \<and> J (j + 1) t'" if j: "0 \<le> j" "j < cols" and Jt: "J j t" for j t
  proof -
    have sht: "same_shape h t" using Jt by (simp add: J_def)
    have ld: "\<And>m' i' j'. load t m' i' j' =
             (if row_of h m' i' = row_of h C i \<and> j' \<in> {0..<j} then Inr (g j') else load h1 m' i' j')"
      using Jt by (simp add: J_def)
    have inb: "in_block h C rows cols m' i' j'" if "row_of h m' i' = row_of h C i" "j' \<in> {0..<j}" for m' i' j'
      using that i j by (auto simp: in_block_def)
    have frt: "\<forall>m' i' j'. \<not> in_block h C rows cols m' i' j' \<longrightarrow> load t m' i' j' = load h m' i' j'"
      using ld fr1 inb by auto
    from step [OF _ sht frt, of j] j
    obtain h3 where h3: "body j t = Inr h3" "same_shape t h3"
      "\<And>m' i' j'. load h3 m' i' j' =
             (if row_of t m' i' = row_of t C i \<and> j' = j then Inr (g j) else load t m' i' j')"
      by auto
    have "same_shape h h3" using sht h3(2) by (rule same_shape_trans)
    moreover have "load h3 m' i' j' =
             (if row_of h m' i' = row_of h C i \<and> j' \<in> {0..<j + 1} then Inr (g j') else load h1 m' i' j')"
      for m' i' j'
      using j(1) by (auto simp: h3(3) ld same_shape_row_of [OF sht])
    ultimately show ?thesis using h3(1) by (simp add: J_def)
  qed
  from for_loop_invariant [of 0 cols J h1 body, OF True J0 Jstep]
  show ?thesis by (auto simp: J_def)
qed

lemma fill_loops:
  assumes step: "\<And>i j h2. i \<in> {0..<rows} \<Longrightarrow> j \<in> {0..<cols} \<Longrightarrow> same_shape h h2 \<Longrightarrow>
        (\<forall>m' i' j'. \<not> in_block h C rows cols m' i' j' \<longrightarrow> load h2 m' i' j' = load h m' i' j') \<Longrightarrow>
        \<exists>h3. body i j h2 = Inr h3 \<and> same_shape h2 h3 \<and>
          (\<forall>m' i' j'. load h3 m' i' j' =
             (if row_of h2 m' i' = row_of h2 C i \<and> j' = j then Inr (g i j) else load h2 m' i' j'))"
  shows "\<exists>h'. for_loop 0 rows (\<lambda>i. for_loop 0 cols (body i)) h = Inr h' \<and> same_shape h h' \<and>
           (\<forall>m' i' j'. \<not> in_block h C rows cols m' i' j' \<longrightarrow> load h' m' i' j' = load h m' i' j') \<and>
           (\<forall>m' i' j'. in_block h C rows cols m' i' j' \<longrightarrow>
              (\<exists>i0\<in>{0..<rows}. row_of h m' i' = row_of h C i0 \<and> load h' m' i' j' = Inr (g i0 j')))"
proof (cases "0 \<le> rows")
  case False
  then show ?thesis by (simp add: for_loop_done same_shape_refl in_block_def)
next
  case True
  define I where "I i h1 \<longleftrightarrow> same_shape h h1 \<and>
           (\<forall>m' i' j'. \<not> in_block h C i cols m' i' j' \<longrightarrow> load h1 m' i' j' = load h m' i' j') \<and>
           (\<forall>m' i' j'. in_block h C i cols m' i' j' \<longrightarrow>
              (\<exists>i0\<in>{0..<i}. row_of h m' i' = row_of h C i0 \<and> load h1 m' i' j' = Inr (g i0 j')))"
    for i h1
  have I0: "I 0 h" by (simp add: I_def same_shape_refl in_block_def)
  have Istep: "\<exists>t'. for_loop 0 cols (body i) t = Inr t' \<and> I (i + 1) t'"
    if i: "0 \<le> i" "i < rows" and It: "I i t" for i t
  proof -
    have sht: "same_shape h t" using It by (simp add: I_def)
    have fri: "\<And>m' i' j'. \<not> in_block h C i cols m' i' j' \<Longrightarrow> load t m' i' j' = load h m' i' j'"
      using It by (simp add: I_def)
    have vi: "\<And>m' i' j'. in_block h C i cols m' i' j' \<Longrightarrow>
              (\<exists>i0\<in>{0..<i}. row_of h m' i' = row_of h C i0 \<and> load t m' i' j' = Inr (g i0 j'))"
      using It by (simp add: I_def)
    have frt: "\<forall>m' i' j'. \<not> in_block h C rows cols m' i' j' \<longrightarrow> load t m' i' j' = load h m' i' j'"
      using fri in_block_mono [of h C i cols _ _ _ rows] i(2) by force
    have irange: "i \<in> {0..<rows}" using i by simp
    from fill_row [of i rows h t C cols "body i" "g i", OF i sht frt step [OF irange]]
    obtain h' where h': "for_loop 0 cols (body i) t = Inr h'" "same_shape h h'"
      "\<And>m' i' j'. load h' m' i' j' =
             (if row_of h m' i' = row_of h C i \<and> j' \<in> {0..<cols} then Inr (g i j') else load t m' i' j')"
      by blast
    have a: "load h' m' i' j' = load h m' i' j'" if "\<not> in_block h C (i + 1) cols m' i' j'" for m' i' j'
    proof -
      from that have n1: "\<not> in_block h C i cols m' i' j'"
        and n2: "\<not> (row_of h m' i' = row_of h C i \<and> j' \<in> {0..<cols})"
        by (simp_all add: in_block_next_row [OF i(1)])
      have "load h' m' i' j' = load t m' i' j'" using n2 by (simp only: h'(3) if_False)
      then show ?thesis using fri [OF n1] by simp
    qed
    have b: "\<exists>i0\<in>{0..<i + 1}. row_of h m' i' = row_of h C i0 \<and> load h' m' i' j' = Inr (g i0 j')"
      if inb: "in_block h C (i + 1) cols m' i' j'" for m' i' j'
    proof (cases "row_of h m' i' = row_of h C i \<and> j' \<in> {0..<cols}")
      case True
      then have "load h' m' i' j' = Inr (g i j')" by (simp add: h'(3))
      moreover have "i \<in> {0..<i + 1}" using i by simp
      ultimately show ?thesis using True by blast
    next
      case False
      then have "in_block h C i cols m' i' j'"
        using inb in_block_next_row [OF i(1), of h C cols m' i' j'] by blast
      from vi [OF this] obtain i0 where i0: "i0 \<in> {0..<i}" "row_of h m' i' = row_of h C i0"
        "load t m' i' j' = Inr (g i0 j')" by blast
      have "load h' m' i' j' = load t m' i' j'" using False by (simp only: h'(3) if_False)
      then have "load h' m' i' j' = Inr (g i0 j')" using i0(3) by simp
      moreover have "i0 \<in> {0..<i + 1}" using i0(1) by simp
      ultimately show ?thesis using i0(2) by blast
    qed
    show ?thesis using h'(1,2) a b by (simp add: I_def)
  qed
  from for_loop_invariant [of 0 rows I h "\<lambda>i. for_loop 0 cols (body i)", OF True I0 Istep]
  show ?thesis by (simp add: I_def)
qed

lemma fill_loops_own:
  assumes "own_rows h C rows" "i \<in> {0..<rows}" "j \<in> {0..<cols}"
    and "\<forall>m' i' j'. in_block h C rows cols m' i' j' \<longrightarrow>
              (\<exists>i0\<in>{0..<rows}. row_of h m' i' = row_of h C i0 \<and> load h' m' i' j' = Inr (g i0 j'))"
  shows "load h' C i j = Inr (g i j)"
proof -
  have "in_block h C rows cols C i j" using assms(2,3) by (auto simp: in_block_def)
  with assms(4) obtain i0 where i0: "i0 \<in> {0..<rows}" "row_of h C i = row_of h C i0"
    "load h' C i j = Inr (g i0 j)" by blast
  have "i = i0" using assms(1,2) i0(1,2) unfolding own_rows_def by blast
  then show ?thesis using i0(3) by simp
qed

lemma apart_not_in_block:
  assumes "apart h C rows A rows'" "i \<in> {0..<rows'}"
  shows "\<not> in_block h C rows cols A i j"
proof
  assume "in_block h C rows cols A i j"
  then obtain i0 where "i0 \<in> {0..<rows}" "row_of h A i = row_of h C i0"
    unfolding in_block_def by blast
  then show False using assms unfolding apart_def by metis
qed

lemma store_step:
  assumes "block h C rows cols" "same_shape h h2" "i \<in> {0..<rows}" "j \<in> {0..<cols}"
  shows "\<exists>h3. store C i j v h2 = Inr h3 \<and> same_shape h2 h3 \<and>
          (\<forall>m' i' j'. load h3 m' i' j' =
             (if row_of h2 m' i' = row_of h2 C i \<and> j' = j then Inr v else load h2 m' i' j'))"
proof -
  have "block h2 C rows cols" using assms(1,2) by (simp add: same_shape_block)
  from block_store [OF this assms(3,4)] obtain h3 where h3: "store C i j v h2 = Inr h3" by blast
  show ?thesis using h3 store_same_shape [OF h3] load_store [OF h3] by blast
qed

section \<open>What the kernels compute\<close>

lemma initialize_matrix_local_result:
  assumes "block h M rows cols"
  shows "\<exists>h'. initialize_matrix_local M rows cols v h = Inr h' \<and> same_shape h h' \<and>
           (\<forall>m' i' j'. \<not> in_block h M rows cols m' i' j' \<longrightarrow> load h' m' i' j' = load h m' i' j') \<and>
           (\<forall>m' i' j'. in_block h M rows cols m' i' j' \<longrightarrow> load h' m' i' j' = Inr v)"
proof -
  from fill_loops [of rows cols h M "\<lambda>i j. store M i j v" "\<lambda>i j. v"] store_step [OF assms]
  obtain h' where h': "for_loop 0 rows (\<lambda>i. for_loop 0 cols (\<lambda>j. store M i j v)) h = Inr h'"
    "same_shape h h'"
    "\<forall>m' i' j'. \<not> in_block h M rows cols m' i' j' \<longrightarrow> load h' m' i' j' = load h m' i' j'"
    "\<forall>m' i' j'. in_block h M rows cols m' i' j' \<longrightarrow>
       (\<exists>i0\<in>{0..<rows}. row_of h m' i' = row_of h M i0 \<and> load h' m' i' j' = Inr v)"
    by blast
  then show ?thesis unfolding initialize_matrix_local_def by blast
qed

lemma matrix_add_local_result:
  assumes A: "holds h A rows cols a" and B: "holds h B rows cols b"
    and C: "block h C rows cols" and CA: "apart h C rows A rows" and CB: "apart h C rows B rows"
  shows "\<exists>h'. matrix_add_local F A B C rows cols h = Inr h' \<and> same_shape h h' \<and>
           (\<forall>m' i' j'. \<not> in_block h C rows cols m' i' j' \<longrightarrow> load h' m' i' j' = load h m' i' j') \<and>
           (\<forall>m' i' j'. in_block h C rows cols m' i' j' \<longrightarrow>
              (\<exists>i0\<in>{0..<rows}. row_of h m' i' = row_of h C i0 \<and>
                  load h' m' i' j' = Inr (d_add F (a i0 j') (b i0 j'))))"
proof -
  let ?body = "\<lambda>i j h. bind (load h A i j) (\<lambda>a. bind (load h B i j) (\<lambda>b. store C i j (d_add F a b) h))"
  have step: "\<exists>h3. ?body i j h2 = Inr h3 \<and> same_shape h2 h3 \<and>
          (\<forall>m' i' j'. load h3 m' i' j' =
             (if row_of h2 m' i' = row_of h2 C i \<and> j' = j then Inr (d_add F (a i j) (b i j))
              else load h2 m' i' j'))"
    if i: "i \<in> {0..<rows}" and j: "j \<in> {0..<cols}" and sh: "same_shape h h2"
      and fr: "\<forall>m' i' j'. \<not> in_block h C rows cols m' i' j' \<longrightarrow> load h2 m' i' j' = load h m' i' j'"
    for i j h2
  proof -
    have "load h2 A i j = Inr (a i j)"
      using fr apart_not_in_block [OF CA i] holds_load [OF A i j] by simp
    moreover have "load h2 B i j = Inr (b i j)"
      using fr apart_not_in_block [OF CB i] holds_load [OF B i j] by simp
    ultimately show ?thesis using store_step [OF C sh i j] by simp
  qed
  from fill_loops [of rows cols h C ?body "\<lambda>i j. d_add F (a i j) (b i j)", OF step]
  show ?thesis unfolding matrix_add_local_def by blast
qed

lemma matrix_transpose_result:
  assumes A: "holds h A n n a" and C: "block h AT n n" and CA: "apart h AT n A n"
  shows "\<exists>h'. matrix_transpose A AT n h = Inr h' \<and> same_shape h h' \<and>
           (\<forall>m' i' j'. \<not> in_block h AT n n m' i' j' \<longrightarrow> load h' m' i' j' = load h m' i' j') \<and>
           (\<forall>m' i' j'. in_block h AT n n m' i' j' \<longrightarrow>
              (\<exists>i0\<in>{0..<n}. row_of h m' i' = row_of h AT i0 \<and> load h' m' i' j' = Inr (a j' i0)))"
proof -
  let ?body = "\<lambda>i j h. bind (load h A j i) (\<lambda>a. store AT i j a h)"
  have step: "\<exists>h3. ?body i j h2 = Inr h3 \<and> same_shape h2 h3 \<and>
          (\<forall>m' i' j'. load h3 m' i' j' =
             (if row_of h2 m' i' = row_of h2 AT i \<and> j' = j then Inr (a j i) else load h2 m' i' j'))"
    if i: "i \<in> {0..<n}" and j: "j \<in> {0..<n}" and sh: "same_shape h h2"
      and fr: "\<forall>m' i' j'. \<not> in_block h AT n n m' i' j' \<longrightarrow> load h2 m' i' j' = load h m' i' j'"
    for i j h2
  proof -
    have "load h2 A j i = Inr (a j i)"
      using fr apart_not_in_block [OF CA j] holds_load [OF A j i] by simp
    then show ?thesis using store_step [OF C sh i j] by simp
  qed
  from fill_loops [of n n h AT ?body "\<lambda>i j. a j i", OF step]
  show ?thesis unfolding matrix_transpose_def by blast
qed

lemma foldl_upto_snoc:
  "0 \<le> k \<Longrightarrow> foldl f z [0..k] = f (foldl f z [0..k - 1]) k"
  using upto_rec2 [of 0 k] by simp

lemma dot_cell:
  assumes k: "0 \<le> n"
    and sh: "same_shape h h0"
    and C: "block h C rows n" and i: "i \<in> {0..<rows}" and j: "j \<in> {0..<n}"
    and A: "\<And>k. k \<in> {0..<n} \<Longrightarrow> load h0 A i k = Inr (a i k)"
    and B: "\<And>k. k \<in> {0..<n} \<Longrightarrow> load h0 B k j = Inr (b k j)"
    and nA: "row_of h0 A i \<noteq> row_of h0 C i"
    and nB: "\<And>k. k \<in> {0..<n} \<Longrightarrow> row_of h0 B k \<noteq> row_of h0 C i"
  shows "\<exists>h3. bind (store C i j (d_lit F 0) h0)
           (for_loop 0 n (\<lambda>k h.
              bind (load h C i j) (\<lambda>c.
              bind (load h A i k) (\<lambda>a.
              bind (load h B k j) (\<lambda>b.
              store C i j (d_add F c (d_mul F a b)) h))))) = Inr h3 \<and> same_shape h0 h3 \<and>
          (\<forall>m' i' j'. load h3 m' i' j' =
             (if row_of h0 m' i' = row_of h0 C i \<and> j' = j then Inr (dot F a b n i j)
              else load h0 m' i' j'))"
proof -
  let ?body = "\<lambda>k h. bind (load h C i j) (\<lambda>c. bind (load h A i k) (\<lambda>a.
              bind (load h B k j) (\<lambda>b. store C i j (d_add F c (d_mul F a b)) h)))"
  let ?f = "\<lambda>acc k. d_add F acc (d_mul F (a i k) (b k j))"
  from store_step [OF C sh i j, of "d_lit F 0"]
  obtain h1 where h1: "store C i j (d_lit F 0) h0 = Inr h1" "same_shape h0 h1"
    "\<And>m' i' j'. load h1 m' i' j' =
       (if row_of h0 m' i' = row_of h0 C i \<and> j' = j then Inr (d_lit F 0) else load h0 m' i' j')"
    by blast
  define K where "K k h2 \<longleftrightarrow> same_shape h0 h2 \<and>
      (\<forall>m' i' j'. load h2 m' i' j' =
         (if row_of h0 m' i' = row_of h0 C i \<and> j' = j then Inr (foldl ?f (d_lit F 0) [0..k - 1])
          else load h0 m' i' j'))" for k h2
  have K0: "K 0 h1" using h1(2,3) by (simp add: K_def)
  have Kstep: "\<exists>t'. ?body k t = Inr t' \<and> K (k + 1) t'" if kk: "0 \<le> k" "k < n" and Kt: "K k t" for k t
  proof -
    have sht: "same_shape h0 t" using Kt by (simp add: K_def)
    have ld: "\<And>m' i' j'. load t m' i' j' =
         (if row_of h0 m' i' = row_of h0 C i \<and> j' = j then Inr (foldl ?f (d_lit F 0) [0..k - 1])
          else load h0 m' i' j')"
      using Kt by (simp add: K_def)
    have kr: "k \<in> {0..<n}" using kk by simp
    have c: "load t C i j = Inr (foldl ?f (d_lit F 0) [0..k - 1])" by (simp add: ld)
    have aa: "load t A i k = Inr (a i k)" using nA A [OF kr] by (simp add: ld)
    have bb: "load t B k j = Inr (b k j)" using nB [OF kr] B [OF kr] by (simp add: ld)
    from store_step [OF C same_shape_trans [OF sh sht] i j,
        of "d_add F (foldl ?f (d_lit F 0) [0..k - 1]) (d_mul F (a i k) (b k j))"]
    obtain h3 where h3: "store C i j (d_add F (foldl ?f (d_lit F 0) [0..k - 1]) (d_mul F (a i k) (b k j))) t
          = Inr h3" "same_shape t h3"
      "\<And>m' i' j'. load h3 m' i' j' =
        (if row_of t m' i' = row_of t C i \<and> j' = j
         then Inr (d_add F (foldl ?f (d_lit F 0) [0..k - 1]) (d_mul F (a i k) (b k j)))
         else load t m' i' j')"
      by blast
    have e: "?body k t = Inr h3" by (simp add: c aa bb h3(1))
    have s3: "same_shape h0 h3" using sht h3(2) by (rule same_shape_trans)
    have "load h3 m' i' j' =
         (if row_of h0 m' i' = row_of h0 C i \<and> j' = j then Inr (foldl ?f (d_lit F 0) [0..k + 1 - 1])
          else load h0 m' i' j')" for m' i' j'
      by (simp add: h3(3) same_shape_row_of [OF sht] ld foldl_upto_snoc [OF kk(1)])
    then show ?thesis using e s3 unfolding K_def by blast
  qed
  from for_loop_invariant [of 0 n K h1 ?body, OF k K0 Kstep]
  obtain h3 where h3: "for_loop 0 n ?body h1 = Inr h3" "K n h3" by blast
  have "same_shape h0 h3" using h3(2) by (simp add: K_def)
  moreover have "\<forall>m' i' j'. load h3 m' i' j' =
             (if row_of h0 m' i' = row_of h0 C i \<and> j' = j then Inr (dot F a b n i j)
              else load h0 m' i' j')"
    using h3(2) by (simp add: K_def dot_def)
  ultimately show ?thesis using h1(1) h3(1) by simp
qed

lemma matrix_multiply_local_result:
  assumes A: "holds h A rows n a" and B: "holds h B n n b"
    and C: "block h C rows n" and CA: "apart h C rows A rows" and CB: "apart h C rows B n"
  shows "\<exists>h'. matrix_multiply_local F A B C rows n h = Inr h' \<and> same_shape h h' \<and>
           (\<forall>m' i' j'. \<not> in_block h C rows n m' i' j' \<longrightarrow> load h' m' i' j' = load h m' i' j') \<and>
           (\<forall>m' i' j'. in_block h C rows n m' i' j' \<longrightarrow>
              (\<exists>i0\<in>{0..<rows}. row_of h m' i' = row_of h C i0 \<and>
                  load h' m' i' j' = Inr (dot F a b n i0 j')))"
proof -
  let ?body = "\<lambda>i j h0. bind (store C i j (d_lit F 0) h0)
           (for_loop 0 n (\<lambda>k h.
              bind (load h C i j) (\<lambda>c.
              bind (load h A i k) (\<lambda>a.
              bind (load h B k j) (\<lambda>b.
              store C i j (d_add F c (d_mul F a b)) h)))))"
  have step: "\<exists>h3. ?body i j h2 = Inr h3 \<and> same_shape h2 h3 \<and>
          (\<forall>m' i' j'. load h3 m' i' j' =
             (if row_of h2 m' i' = row_of h2 C i \<and> j' = j then Inr (dot F a b n i j)
              else load h2 m' i' j'))"
    if i: "i \<in> {0..<rows}" and j: "j \<in> {0..<n}" and sh: "same_shape h h2"
      and fr: "\<forall>m' i' j'. \<not> in_block h C rows n m' i' j' \<longrightarrow> load h2 m' i' j' = load h m' i' j'"
    for i j h2
  proof -
    have n0: "0 \<le> n" using j by simp
    have la: "load h2 A i k = Inr (a i k)" if "k \<in> {0..<n}" for k
      using fr apart_not_in_block [OF CA i] holds_load [OF A i that] by simp
    have lb: "load h2 B k j = Inr (b k j)" if "k \<in> {0..<n}" for k
      using fr apart_not_in_block [OF CB that] holds_load [OF B that j] by simp
    have nA: "row_of h2 A i \<noteq> row_of h2 C i"
      using CA i unfolding apart_def same_shape_row_of [OF sh] by metis
    have nB: "row_of h2 B k \<noteq> row_of h2 C i" if "k \<in> {0..<n}" for k
      using CB i that unfolding apart_def same_shape_row_of [OF sh] by metis
    show ?thesis
      by (rule dot_cell [where a = a and b = b and F = F, OF n0 sh C i j la lb nA nB])
  qed
  from fill_loops [of rows n h C ?body "dot F a b n", OF step]
  show ?thesis unfolding matrix_multiply_local_def by blast
qed

lemma sum_row:
  assumes "\<And>j. j \<in> {0..<cols} \<Longrightarrow> load h A i j = Inr (a i j)"
  shows "for_loop 0 cols (\<lambda>j (sum, h1).
            bind (load h1 A i j) (\<lambda>x. Inr (d_add F sum (d_mul F x x), h1))) (s, h)
         = Inr (foldl (\<lambda>s' j. d_add F s' (d_mul F (a i j) (a i j))) s [0..cols - 1], h)"
proof (cases "0 \<le> cols")
  case False
  then show ?thesis by (simp add: for_loop_done)
next
  case True
  let ?body = "\<lambda>j (sum, h1). bind (load h1 A i j) (\<lambda>x. Inr (d_add F sum (d_mul F x x), h1))"
  let ?f = "\<lambda>s' j. d_add F s' (d_mul F (a i j) (a i j))"
  define J where "J j t \<longleftrightarrow> t = (foldl ?f s [0..j - 1], h)" for j and t :: "'a \<times> 'a heap"
  have J0: "J 0 (s, h)" by (simp add: J_def)
  have Jstep: "\<exists>t'. ?body j t = Inr t' \<and> J (j + 1) t'" if "0 \<le> j" "j < cols" "J j t" for j t
    using that assms [of j] by (simp add: J_def foldl_upto_snoc)
  from for_loop_invariant [of 0 cols J "(s, h)" ?body, OF True J0 Jstep]
  show ?thesis by (simp add: J_def)
qed

lemma sum_rows:
  assumes "holds h A rows cols a"
  shows "for_loop 0 rows (\<lambda>i. for_loop 0 cols (\<lambda>j (sum, h1).
            bind (load h1 A i j) (\<lambda>x. Inr (d_add F sum (d_mul F x x), h1)))) (d_lit F 0, h)
         = Inr (sum_squares F a rows cols, h)"
proof (cases "0 \<le> rows")
  case False
  then show ?thesis by (simp add: for_loop_done sum_squares_def)
next
  case True
  let ?body = "\<lambda>i. for_loop 0 cols (\<lambda>j (sum, h1).
            bind (load h1 A i j) (\<lambda>x. Inr (d_add F sum (d_mul F x x), h1)))"
  let ?f = "\<lambda>s i. foldl (\<lambda>s' j. d_add F s' (d_mul F (a i j) (a i j))) s [0..cols - 1]"
  define I where "I i t \<longleftrightarrow> t = (foldl ?f (d_lit F 0) [0..i - 1], h)" for i and t :: "'a \<times> 'a heap"
  have I0: "I 0 (d_lit F 0, h)" by (simp add: I_def)
  have Istep: "\<exists>t'. ?body i t = Inr t' \<and> I (i + 1) t'" if i: "0 \<le> i" "i < rows" and It: "I i t" for i t
  proof -
    have "\<And>j. j \<in> {0..<cols} \<Longrightarrow> load h A i j = Inr (a i j)"
      using holds_load [OF assms] i by simp
    from sum_row [of cols h A i a F, OF this] It i(1)
    show ?thesis by (simp add: I_def foldl_upto_snoc)
  qed
  from for_loop_invariant [of 0 rows I "(d_lit F 0, h)" ?body, OF True I0 Istep]
  show ?thesis by (simp add: I_def sum_squares_def)
qed

lemma compute_local_norm_result:
  "holds h A rows cols a \<Longrightarrow> compute_local_norm F A rows cols h = Inr (sum_squares F a rows cols, h)"
  unfolding compute_local_norm_def by (rule sum_rows)

lemma compute_frobenius_norm_result:
  "holds h A n n a \<Longrightarrow> compute_frobenius_norm F A n h = Inr (d_sqrt F (sum_squares F a n n), h)"
  unfolding compute_frobenius_norm_def by (simp add: sum_rows)

lemma allocate_matrix_eq: "allocate_matrix n = allocate_matrix_local n n"
  by (rule ext) (simp add: allocate_matrix_def allocate_matrix_local_def)

lemma free_matrix_eq: "free_matrix m n = free_matrix_local m n"
  by (rule ext) (simp add: free_matrix_def free_matrix_local_def)

lemma initialize_matrix_eq: "initialize_matrix m n v = initialize_matrix_local m n n v"
  by (simp add: initialize_matrix_def initialize_matrix_local_def)

lemma matrix_multiply_eq: "matrix_multiply F A B C n = matrix_multiply_local F A B C n n"
  by (simp add: matrix_multiply_def matrix_multiply_local_def)

lemma matrix_add_eq: "matrix_add F A B C n = matrix_add_local F A B C n n"
  by (simp add: matrix_add_def matrix_add_local_def)

lemma compute_frobenius_norm_eq:
  "compute_frobenius_norm F A n h =
     bind (compute_local_norm F A n n h) (\<lambda>(sum, h2). Inr (d_sqrt F sum, h2))"
  by (simp add: compute_frobenius_norm_def compute_local_norm_def)

section \<open>Facts about the small heap\<close>

lemma int_range2: "{0..<2::int} = {0, 1}" by auto

lemma ex_row_of:
  "row_of example_heap 0 0 = Some 1" "row_of example_heap 0 1 = Some 2"
  "row_of example_heap 3 0 = Some 4" "row_of example_heap 3 1 = Some 5"
  "row_of example_heap 6 0 = Some 7" "row_of example_heap 6 1 = Some 8"
  "row_of example_heap 9 0 = Some 10" "row_of example_heap 9 1 = Some 11"
  by (simp_all add: row_of_def example_heap_def)

lemma ex_blocks:
  "block example_heap 0 2 2" "block example_heap 3 2 2" "block example_heap 6 2 2"
  "block example_heap 9 2 2"
  by (simp_all add: block_def int_range2 ex_row_of) (simp_all add: example_heap_def)

lemma ex_holds:
  "holds example_heap 0 2 2 (\<lambda>i j. 1)" "holds example_heap 3 2 2 (\<lambda>i j. 2)"
  "holds example_heap 6 2 2 (\<lambda>i j. 0)"
  "holds example_heap 9 2 2 (\<lambda>i j. of_int (5 + 2 * i + j))"
  by (simp_all add: holds_def int_range2 load_def ex_row_of) (simp_all add: example_heap_def)

lemma ex_own_rows:
  "own_rows example_heap 0 2" "own_rows example_heap 3 2" "own_rows example_heap 6 2"
  "own_rows example_heap 9 2"
  by (simp_all add: own_rows_def int_range2 ex_row_of)

lemma ex_apart:
  "apart example_heap 6 2 0 2" "apart example_heap 6 2 3 2" "apart example_heap 9 2 6 2"
  "apart example_heap 9 2 0 2" "apart example_heap 3 2 0 2" "apart example_heap 0 2 3 2"
  "apart example_heap 6 2 9 2" "apart example_heap 0 2 6 2"
  by (simp_all add: apart_def int_range2 ex_row_of)

lemma holds_after:
  assumes "holds h A rows cols a" 
    and "\<forall>m' i' j'. \<not> in_block h C r c m' i' j' \<longrightarrow> load h' m' i' j' = load h m' i' j'"
    and "apart h C r A rows"
  shows "holds h' A rows cols a"
  unfolding holds_def
proof (intro ballI)
  fix i j assume i: "i \<in> {0..<rows}" and j: "j \<in> {0..<cols}"
  have "load h' A i j = load h A i j"
    using assms(2) apart_not_in_block [OF assms(3) i] by blast
  then show "load h' A i j = Inr (a i j)" using holds_load [OF assms(1) i j] by simp
qed

lemma holds_filled:
  assumes "own_rows h C rows"
    and "\<forall>m' i' j'. in_block h C rows cols m' i' j' \<longrightarrow>
              (\<exists>i0\<in>{0..<rows}. row_of h m' i' = row_of h C i0 \<and> load h' m' i' j' = Inr (g i0 j'))"
  shows "holds h' C rows cols g"
  unfolding holds_def using fill_loops_own [OF assms(1) _ _ assms(2)] by blast

lemma upto_0_1: "[0..1::int] = [0, 1]"
  by (simp add: upto_rec1)

lemma block_holds: "block h M rows cols \<Longrightarrow> holds h M rows cols (\<lambda>i j. projr (load h M i j))"
proof -
  assume b: "block h M rows cols"
  have "load h M i j = Inr (projr (load h M i j))" if "i \<in> {0..<rows}" "j \<in> {0..<cols}" for i j
    using block_load [OF b that] by auto
  then show ?thesis by (simp add: holds_def)
qed

lemma frame_loops:
  assumes step: "\<And>i j h2. i \<in> {0..<rows} \<Longrightarrow> j \<in> {0..<cols} \<Longrightarrow> same_shape h h2 \<Longrightarrow>
        \<exists>h3. body i j h2 = Inr h3 \<and> same_shape h2 h3 \<and>
          (\<forall>m' i' j'. \<not> (row_of h2 m' i' = row_of h2 C i \<and> j' = j) \<longrightarrow>
             load h3 m' i' j' = load h2 m' i' j')"
  shows "\<exists>h'. for_loop 0 rows (\<lambda>i. for_loop 0 cols (body i)) h = Inr h' \<and> same_shape h h' \<and>
           (\<forall>m' i' j'. \<not> in_block h C rows cols m' i' j' \<longrightarrow> load h' m' i' j' = load h m' i' j')"
proof (cases "0 \<le> rows")
  case False
  then show ?thesis by (simp add: for_loop_done same_shape_refl)
next
  case True
  define I where "I t \<longleftrightarrow> same_shape h t \<and>
      (\<forall>m' i' j'. \<not> in_block h C rows cols m' i' j' \<longrightarrow> load t m' i' j' = load h m' i' j')" for t
  have I0: "I h" by (simp add: I_def same_shape_refl)
  have cell: "\<exists>t'. body i j t = Inr t' \<and> I t'"
    if i: "i \<in> {0..<rows}" and j: "j \<in> {0..<cols}" and It: "I t" for i j t
  proof -
    have sht: "same_shape h t" using It by (simp add: I_def)
    from step [OF i j sht] obtain h3 where h3: "body i j t = Inr h3" "same_shape t h3"
      "\<And>m' i' j'. \<not> (row_of t m' i' = row_of t C i \<and> j' = j) \<Longrightarrow> load h3 m' i' j' = load t m' i' j'"
      by blast
    have "load h3 m' i' j' = load h m' i' j'" if n: "\<not> in_block h C rows cols m' i' j'" for m' i' j'
    proof -
      have "\<not> (row_of t m' i' = row_of t C i \<and> j' = j)"
        using n i j unfolding in_block_def same_shape_row_of [OF sht] by blast
      from h3(3) [OF this] show ?thesis using It n by (simp add: I_def)
    qed
    then show ?thesis using h3(1) same_shape_trans [OF sht h3(2)] by (simp add: I_def)
  qed
  have row: "\<exists>t'. for_loop 0 cols (body i) t = Inr t' \<and> I t'"
    if i: "0 \<le> i" "i < rows" and It: "I t" for i t
  proof (cases "0 \<le> cols")
    case False
    then show ?thesis using It by (simp add: for_loop_done)
  next
    case True
    have "\<exists>t'. body i j u = Inr t' \<and> I t'" if "0 \<le> j" "j < cols" "I u" for j u
      using cell [of i j u] i that by simp
    from for_loop_invariant [of 0 cols "\<lambda>j. I" t "body i", OF True It this]
    show ?thesis by blast
  qed
  from for_loop_invariant [of 0 rows "\<lambda>i. I" h "\<lambda>i. for_loop 0 cols (body i)", OF True I0 row]
  show ?thesis by (simp add: I_def)
qed

lemma store_frame_step:
  assumes "block h C rows cols" "same_shape h h2" "i \<in> {0..<rows}" "j \<in> {0..<cols}"
  shows "\<exists>h3. store C i j v h2 = Inr h3 \<and> same_shape h2 h3 \<and>
          (\<forall>m' i' j'. \<not> (row_of h2 m' i' = row_of h2 C i \<and> j' = j) \<longrightarrow>
             load h3 m' i' j' = load h2 m' i' j')"
  using store_step [OF assms, of v] by auto

lemma matrix_add_local_frame:
  assumes A: "block h A rows cols" and B: "block h B rows cols" and C: "block h C rows cols"
  shows "\<exists>h'. matrix_add_local F A B C rows cols h = Inr h' \<and> same_shape h h' \<and>
           (\<forall>m' i' j'. \<not> in_block h C rows cols m' i' j' \<longrightarrow> load h' m' i' j' = load h m' i' j')"
proof -
  let ?body = "\<lambda>i j h. bind (load h A i j) (\<lambda>a. bind (load h B i j) (\<lambda>b. store C i j (d_add F a b) h))"
  have step: "\<exists>h3. ?body i j h2 = Inr h3 \<and> same_shape h2 h3 \<and>
          (\<forall>m' i' j'. \<not> (row_of h2 m' i' = row_of h2 C i \<and> j' = j) \<longrightarrow>
             load h3 m' i' j' = load h2 m' i' j')"
    if i: "i \<in> {0..<rows}" and j: "j \<in> {0..<cols}" and sh: "same_shape h h2" for i j h2
  proof -
    have "block h2 A rows cols" "block h2 B rows cols"
      using A B by (simp_all add: same_shape_block [OF sh])
    then obtain a b where "load h2 A i j = Inr a" "load h2 B i j = Inr b"
      using block_load [OF _ i j] by blast
    then show ?thesis using store_frame_step [OF C sh i j, of "d_add F a b"] by simp
  qed
  from frame_loops [of rows cols h ?body C, OF step]
  show ?thesis unfolding matrix_add_local_def by blast
qed

lemma matrix_multiply_local_frame:
  assumes A: "block h A rows n" and B: "block h B n n" and C: "block h C rows n"
  shows "\<exists>h'. matrix_multiply_local F A B C rows n h = Inr h' \<and> same_shape h h' \<and>
           (\<forall>m' i' j'. \<not> in_block h C rows n m' i' j' \<longrightarrow> load h' m' i' j' = load h m' i' j')"
proof -
  let ?inner = "\<lambda>i j k h. bind (load h C i j) (\<lambda>c. bind (load h A i k) (\<lambda>a.
              bind (load h B k j) (\<lambda>b. store C i j (d_add F c (d_mul F a b)) h)))"
  let ?body = "\<lambda>i j h0. bind (store C i j (d_lit F 0) h0) (for_loop 0 n (?inner i j))"
  have step: "\<exists>h3. ?body i j h2 = Inr h3 \<and> same_shape h2 h3 \<and>
          (\<forall>m' i' j'. \<not> (row_of h2 m' i' = row_of h2 C i \<and> j' = j) \<longrightarrow>
             load h3 m' i' j' = load h2 m' i' j')"
    if i: "i \<in> {0..<rows}" and j: "j \<in> {0..<n}" and sh: "same_shape h h2" for i j h2
  proof -
    have n0: "0 \<le> n" using j by simp
    define K where "K t \<longleftrightarrow> same_shape h2 t \<and>
        (\<forall>m' i' j'. \<not> (row_of h2 m' i' = row_of h2 C i \<and> j' = j) \<longrightarrow>
           load t m' i' j' = load h2 m' i' j')" for t
    from store_frame_step [OF C sh i j, of "d_lit F 0"]
    obtain h1 where h1: "store C i j (d_lit F 0) h2 = Inr h1" "K h1"
      unfolding K_def by blast
    have Kstep: "\<exists>t'. ?inner i j k t = Inr t' \<and> K t'" if k: "0 \<le> k" "k < n" and Kt: "K t" for k t
    proof -
      have s2: "same_shape h2 t" using Kt by (simp add: K_def)
      have st: "same_shape h t" using sh s2 by (rule same_shape_trans)
      have kr: "k \<in> {0..<n}" using k by simp
      have "block t A rows n" "block t B n n" "block t C rows n"
        using A B C by (simp_all add: same_shape_block [OF st])
      then obtain c a b where l: "load t C i j = Inr c" "load t A i k = Inr a" "load t B k j = Inr b"
        using block_load [OF _ i j] block_load [OF _ i kr] block_load [OF _ kr j] by blast
      from store_frame_step [OF C st i j, of "d_add F c (d_mul F a b)"]
      obtain h3 where h3: "store C i j (d_add F c (d_mul F a b)) t = Inr h3" "same_shape t h3"
        "\<And>m' i' j'. \<not> (row_of t m' i' = row_of t C i \<and> j' = j) \<Longrightarrow> load h3 m' i' j' = load t m' i' j'"
        by blast
      have "load h3 m' i' j' = load h2 m' i' j'"
        if n: "\<not> (row_of h2 m' i' = row_of h2 C i \<and> j' = j)" for m' i' j'
      proof -
        have "\<not> (row_of t m' i' = row_of t C i \<and> j' = j)"
          using n by (simp add: same_shape_row_of [OF s2])
        from h3(3) [OF this] show ?thesis using Kt n by (simp add: K_def)
      qed
      then have "K h3" using same_shape_trans [OF s2 h3(2)] by (simp add: K_def)
      then show ?thesis using l h3(1) by simp
    qed
    from for_loop_invariant [of 0 n "\<lambda>k. K" h1 "?inner i j", OF n0 h1(2) Kstep]
    show ?thesis using h1(1) by (simp add: K_def)
  qed
  from frame_loops [of rows n h ?body C, OF step]
  show ?thesis unfolding matrix_multiply_local_def by blast
qed

lemma loads_after:
  assumes "\<forall>m' i' j'. \<not> in_block h C r c m' i' j' \<longrightarrow> load h' m' i' j' = load h m' i' j'"
    and "apart h C r A rows"
  shows "\<forall>i\<in>{0..<rows}. \<forall>j\<in>{0..<cols}. load h' A i j = load h A i j"
  using assms(1) apart_not_in_block [OF assms(2)] by blast

section \<open>Claims about the kernels\<close>

text \<open>
  C3.  When \<open>A\<close> holds a \<open>rows x n\<close> matrix \<open>a\<close>, \<open>B\<close> an \<open>n x n\<close> matrix \<open>b\<close>, and \<open>C\<close> is a
  \<open>rows x n\<close> block of its own rows that shares none with \<open>A\<close> or \<open>B\<close>, then
  \<^verbatim>\<open>matrix_multiply_local\<close> returns, and cell \<open>(i, j)\<close> of \<open>C\<close> then holds the value obtained
  from \<^verbatim>\<open>0.0\<close> by adding the products \<open>a i k * b k j\<close> for \<open>k = 0, ..., n - 1\<close> in this order,
  whatever the arithmetic.  \<^verbatim>\<open>matrix_multiply\<close> of the serial program is the same function
  with \<open>rows = n\<close>.
\<close>

theorem matrix_multiply_accumulates_in_order:
  assumes "holds h A rows n a" and "holds h B n n b"
    and "block h C rows n" and "own_rows h C rows"
    and "apart h C rows A rows" and "apart h C rows B n"
  shows "(\<exists>h'. matrix_multiply_local F A B C rows n h = Inr h' \<and>
            (\<forall>i\<in>{0..<rows}. \<forall>j\<in>{0..<n}.
               load h' C i j =
                 Inr (foldl (\<lambda>acc k. d_add F acc (d_mul F (a i k) (b k j))) (d_lit F 0) [0..n - 1])))
       \<and> matrix_multiply F A B C n = matrix_multiply_local F A B C n n"
proof
  from matrix_multiply_local_result [OF assms(1,2,3,5,6), of F]
  obtain h' where h': "matrix_multiply_local F A B C rows n h = Inr h'"
    "\<forall>m' i' j'. in_block h C rows n m' i' j' \<longrightarrow>
              (\<exists>i0\<in>{0..<rows}. row_of h m' i' = row_of h C i0 \<and>
                  load h' m' i' j' = Inr (dot F a b n i0 j'))"
    by blast
  have "holds h' C rows n (dot F a b n)" using holds_filled [OF assms(4) h'(2)] .
  then have "\<forall>i\<in>{0..<rows}. \<forall>j\<in>{0..<n}.
               load h' C i j =
                 Inr (foldl (\<lambda>acc k. d_add F acc (d_mul F (a i k) (b k j))) (d_lit F 0) [0..n - 1])"
    by (simp add: holds_def dot_def)
  with h'(1) show "\<exists>h'. matrix_multiply_local F A B C rows n h = Inr h' \<and>
            (\<forall>i\<in>{0..<rows}. \<forall>j\<in>{0..<n}.
               load h' C i j =
                 Inr (foldl (\<lambda>acc k. d_add F acc (d_mul F (a i k) (b k j))) (d_lit F 0) [0..n - 1]))"
    by blast
  show "matrix_multiply F A B C n = matrix_multiply_local F A B C n n"
    by (rule matrix_multiply_eq)
qed

theorem matrix_multiply_accumulates_in_order_witness:
  "holds example_heap 0 2 2 (\<lambda>i j. 1) \<and> holds example_heap 3 2 2 (\<lambda>i j. 2)
   \<and> block example_heap 6 2 2 \<and> own_rows example_heap 6 2
   \<and> apart example_heap 6 2 0 2 \<and> apart example_heap 6 2 3 2
   \<and> (\<exists>h'. matrix_multiply_local exact_arith 0 3 6 2 2 example_heap = Inr h' \<and>
          load h' 6 0 0 = Inr 4 \<and> load h' 6 0 1 = Inr 4 \<and>
          load h' 6 1 0 = Inr 4 \<and> load h' 6 1 1 = Inr 4)"
proof -
  from matrix_multiply_accumulates_in_order
    [OF ex_holds(1) ex_holds(2) ex_blocks(3) ex_own_rows(3) ex_apart(1) ex_apart(2), of exact_arith]
  obtain h' where h': "matrix_multiply_local exact_arith 0 3 6 2 2 example_heap = Inr h'"
    "\<forall>i\<in>{0..<2}. \<forall>j\<in>{0..<2}. load h' 6 i j =
        Inr (foldl (\<lambda>acc k. d_add exact_arith acc (d_mul exact_arith 1 2)) (d_lit exact_arith 0) [0..2 - 1])"
    by blast
  have v: "foldl (\<lambda>acc k. d_add exact_arith acc (d_mul exact_arith 1 2)) (d_lit exact_arith 0) [0..2 - 1]
         = (4::real)"
    by (simp add: exact_arith_def upto_0_1)
  have "load h' 6 0 0 = Inr 4" "load h' 6 0 1 = Inr 4" "load h' 6 1 0 = Inr 4" "load h' 6 1 1 = Inr 4"
    using h'(2) unfolding v by simp_all
  with h'(1) ex_holds(1) ex_holds(2) ex_blocks(3) ex_own_rows(3) ex_apart(1) ex_apart(2)
  show ?thesis by blast
qed

text \<open>
  C8.  On well-formed blocks, whether or not they share rows, \<^verbatim>\<open>matrix_multiply_local\<close> and
  \<^verbatim>\<open>matrix_add_local\<close> return; the heap they leave has the same arrays, row pointers and
  allocator state as before; and every cell outside the first \<open>n\<close> columns of the first
  \<open>rows\<close> rows of the output block \<open>C\<close> reads as before.  So an input block that shares no row
  with \<open>C\<close> is left unchanged in every cell, and when the inputs of the addition are such
  blocks and the rows of \<open>C\<close> are different arrays, what is written is the sum
  \<open>a i j + d i j\<close> of the inputs.  \<^verbatim>\<open>compute_local_norm\<close> returns the very heap it was
  given, and its result is the sum of squares of the matrix the block holds.
\<close>

theorem kernels_write_only_output:
  assumes "block h A rows n" and "block h B n n" and "block h D rows n" and "block h C rows n"
  shows "(\<exists>h'. matrix_multiply_local F A B C rows n h = Inr h' \<and> same_shape h h' \<and>
            (\<forall>m' i' j'. \<not> in_block h C rows n m' i' j' \<longrightarrow> load h' m' i' j' = load h m' i' j') \<and>
            (apart h C rows A rows \<longrightarrow> (\<forall>i\<in>{0..<rows}. \<forall>j\<in>{0..<n}. load h' A i j = load h A i j)) \<and>
            (apart h C rows B n \<longrightarrow> (\<forall>i\<in>{0..<n}. \<forall>j\<in>{0..<n}. load h' B i j = load h B i j)))
       \<and> (\<exists>h'. matrix_add_local F A D C rows n h = Inr h' \<and> same_shape h h' \<and>
            (\<forall>m' i' j'. \<not> in_block h C rows n m' i' j' \<longrightarrow> load h' m' i' j' = load h m' i' j') \<and>
            (apart h C rows A rows \<longrightarrow> (\<forall>i\<in>{0..<rows}. \<forall>j\<in>{0..<n}. load h' A i j = load h A i j)) \<and>
            (apart h C rows D rows \<longrightarrow> (\<forall>i\<in>{0..<rows}. \<forall>j\<in>{0..<n}. load h' D i j = load h D i j)) \<and>
            (\<forall>a d. holds h A rows n a \<and> holds h D rows n d \<and> own_rows h C rows \<and>
                   apart h C rows A rows \<and> apart h C rows D rows \<longrightarrow>
                   holds h' C rows n (\<lambda>i j. d_add F (a i j) (d i j))))
       \<and> (\<exists>s. compute_local_norm F A rows n h = Inr (s, h))
       \<and> (\<forall>a. holds h A rows n a \<longrightarrow> compute_local_norm F A rows n h = Inr (sum_squares F a rows n, h))"
proof (intro conjI)
  from matrix_multiply_local_frame [OF assms(1,2,4), of F]
  obtain h' where h': "matrix_multiply_local F A B C rows n h = Inr h'" "same_shape h h'"
    "\<forall>m' i' j'. \<not> in_block h C rows n m' i' j' \<longrightarrow> load h' m' i' j' = load h m' i' j'"
    by blast
  have "apart h C rows A rows \<longrightarrow> (\<forall>i\<in>{0..<rows}. \<forall>j\<in>{0..<n}. load h' A i j = load h A i j)"
    using loads_after [OF h'(3)] by blast
  moreover have "apart h C rows B n \<longrightarrow> (\<forall>i\<in>{0..<n}. \<forall>j\<in>{0..<n}. load h' B i j = load h B i j)"
    using loads_after [OF h'(3)] by blast
  ultimately show "\<exists>h'. matrix_multiply_local F A B C rows n h = Inr h' \<and> same_shape h h' \<and>
            (\<forall>m' i' j'. \<not> in_block h C rows n m' i' j' \<longrightarrow> load h' m' i' j' = load h m' i' j') \<and>
            (apart h C rows A rows \<longrightarrow> (\<forall>i\<in>{0..<rows}. \<forall>j\<in>{0..<n}. load h' A i j = load h A i j)) \<and>
            (apart h C rows B n \<longrightarrow> (\<forall>i\<in>{0..<n}. \<forall>j\<in>{0..<n}. load h' B i j = load h B i j))"
    using h' by blast
next
  from matrix_add_local_frame [OF assms(1,3,4), of F]
  obtain h' where h': "matrix_add_local F A D C rows n h = Inr h'" "same_shape h h'"
    "\<forall>m' i' j'. \<not> in_block h C rows n m' i' j' \<longrightarrow> load h' m' i' j' = load h m' i' j'"
    by blast
  have a: "apart h C rows A rows \<longrightarrow> (\<forall>i\<in>{0..<rows}. \<forall>j\<in>{0..<n}. load h' A i j = load h A i j)"
    using loads_after [OF h'(3)] by blast
  have d: "apart h C rows D rows \<longrightarrow> (\<forall>i\<in>{0..<rows}. \<forall>j\<in>{0..<n}. load h' D i j = load h D i j)"
    using loads_after [OF h'(3)] by blast
  have v: "holds h' C rows n (\<lambda>i j. d_add F (a i j) (d i j))"
    if "holds h A rows n a" "holds h D rows n d" "own_rows h C rows"
      "apart h C rows A rows" "apart h C rows D rows" for a d
  proof -
    from matrix_add_local_result [OF that(1,2) assms(4) that(4,5), of F] h'(1)
    have "\<forall>m' i' j'. in_block h C rows n m' i' j' \<longrightarrow>
              (\<exists>i0\<in>{0..<rows}. row_of h m' i' = row_of h C i0 \<and>
                  load h' m' i' j' = Inr (d_add F (a i0 j') (d i0 j')))"
      by auto
    from holds_filled [OF that(3), of n h' "\<lambda>i j. d_add F (a i j) (d i j)"] this
    show ?thesis by simp
  qed
  show "\<exists>h'. matrix_add_local F A D C rows n h = Inr h' \<and> same_shape h h' \<and>
            (\<forall>m' i' j'. \<not> in_block h C rows n m' i' j' \<longrightarrow> load h' m' i' j' = load h m' i' j') \<and>
            (apart h C rows A rows \<longrightarrow> (\<forall>i\<in>{0..<rows}. \<forall>j\<in>{0..<n}. load h' A i j = load h A i j)) \<and>
            (apart h C rows D rows \<longrightarrow> (\<forall>i\<in>{0..<rows}. \<forall>j\<in>{0..<n}. load h' D i j = load h D i j)) \<and>
            (\<forall>a d. holds h A rows n a \<and> holds h D rows n d \<and> own_rows h C rows \<and>
                   apart h C rows A rows \<and> apart h C rows D rows \<longrightarrow>
                   holds h' C rows n (\<lambda>i j. d_add F (a i j) (d i j)))"
    using h' a d v by blast
next
  show "\<exists>s. compute_local_norm F A rows n h = Inr (s, h)"
    using compute_local_norm_result [OF block_holds [OF assms(1)], of F] by blast
next
  show "\<forall>a. holds h A rows n a \<longrightarrow> compute_local_norm F A rows n h = Inr (sum_squares F a rows n, h)"
    using compute_local_norm_result by blast
qed

theorem kernels_write_only_output_witness:
  "block example_heap 0 2 2 \<and> block example_heap 3 2 2 \<and> block example_heap 9 2 2
   \<and> block example_heap 6 2 2
   \<and> (\<exists>h'. matrix_multiply_local exact_arith 0 3 6 2 2 example_heap = Inr h' \<and>
          same_shape example_heap h' \<and> load h' 0 1 1 = Inr 1 \<and> load h' 3 0 1 = Inr 2)
   \<and> (\<exists>h'. matrix_add_local exact_arith 0 9 6 2 2 example_heap = Inr h' \<and>
          same_shape example_heap h' \<and> load h' 0 1 1 = Inr 1 \<and> load h' 9 0 1 = Inr 6 \<and>
          load h' 6 1 0 = Inr 8)
   \<and> compute_local_norm exact_arith 0 2 2 example_heap = Inr (4, example_heap)"
proof -
  note t = kernels_write_only_output [OF ex_blocks(1) ex_blocks(2) ex_blocks(4) ex_blocks(3),
      of exact_arith]
  from t ex_apart(1) ex_apart(2)
  obtain h1 where h1: "matrix_multiply_local exact_arith 0 3 6 2 2 example_heap = Inr h1"
    "same_shape example_heap h1"
    "\<forall>i\<in>{0..<2}. \<forall>j\<in>{0..<2}. load h1 0 i j = load example_heap 0 i j"
    "\<forall>i\<in>{0..<2}. \<forall>j\<in>{0..<2}. load h1 3 i j = load example_heap 3 i j"
    by blast
  have "load h1 0 1 1 = Inr 1" "load h1 3 0 1 = Inr 2"
    using h1(3,4) holds_load [OF ex_holds(1), of 1 1] holds_load [OF ex_holds(2), of 0 1]
    by simp_all
  then have m: "\<exists>h'. matrix_multiply_local exact_arith 0 3 6 2 2 example_heap = Inr h' \<and>
          same_shape example_heap h' \<and> load h' 0 1 1 = Inr 1 \<and> load h' 3 0 1 = Inr 2"
    using h1(1,2) by blast
  from t ex_apart(1) ex_apart(7) ex_holds(1) ex_holds(4) ex_own_rows(3)
  obtain h2 where h2: "matrix_add_local exact_arith 0 9 6 2 2 example_heap = Inr h2"
    "same_shape example_heap h2"
    "\<forall>i\<in>{0..<2}. \<forall>j\<in>{0..<2}. load h2 0 i j = load example_heap 0 i j"
    "\<forall>i\<in>{0..<2}. \<forall>j\<in>{0..<2}. load h2 9 i j = load example_heap 9 i j"
    "holds h2 6 2 2 (\<lambda>i j. d_add exact_arith 1 (of_int (5 + 2 * i + j)))"
    by blast
  have "load h2 0 1 1 = Inr 1" "load h2 9 0 1 = Inr 6" "load h2 6 1 0 = Inr 8"
    using h2(3,4) holds_load [OF ex_holds(1), of 1 1] holds_load [OF ex_holds(4), of 0 1]
      holds_load [OF h2(5), of 1 0]
    by (simp_all add: exact_arith_def)
  then have a: "\<exists>h'. matrix_add_local exact_arith 0 9 6 2 2 example_heap = Inr h' \<and>
          same_shape example_heap h' \<and> load h' 0 1 1 = Inr 1 \<and> load h' 9 0 1 = Inr 6 \<and>
          load h' 6 1 0 = Inr 8"
    using h2(1,2) by blast
  from t ex_holds(1)
  have "compute_local_norm exact_arith 0 2 2 example_heap
      = Inr (sum_squares exact_arith (\<lambda>i j. 1) 2 2, example_heap)"
    by blast
  then have s: "compute_local_norm exact_arith 0 2 2 example_heap = Inr (4, example_heap)"
    by (simp add: sum_squares_def exact_arith_def upto_0_1)
  show ?thesis using ex_blocks m a s by blast
qed

text \<open>
  C9.  Transposing an \<open>n x n\<close> block \<open>A\<close> into \<open>AT\<close> and \<open>AT\<close> into \<open>A2\<close>, each output a block of
  its own rows that shares none with its input, both calls of \<^verbatim>\<open>matrix_transpose\<close> return,
  \<open>AT\<close> holds the transposed matrix and \<open>A2\<close> holds the matrix \<open>A\<close> held at the start.
\<close>

theorem matrix_transpose_twice:
  assumes "holds h A n n a"
    and "block h AT n n" and "own_rows h AT n" and "apart h AT n A n"
    and "block h A2 n n" and "own_rows h A2 n" and "apart h A2 n AT n"
  shows "\<exists>h1 h2. matrix_transpose A AT n h = Inr h1 \<and> holds h1 AT n n (\<lambda>i j. a j i) \<and>
           matrix_transpose AT A2 n h1 = Inr h2 \<and> holds h2 A2 n n a \<and>
           (\<forall>i\<in>{0..<n}. \<forall>j\<in>{0..<n}. load h2 A2 i j = load h A i j)"
proof -
  from matrix_transpose_result [OF assms(1,2,4)]
  obtain h1 where h1: "matrix_transpose A AT n h = Inr h1" "same_shape h h1"
    "\<forall>m' i' j'. in_block h AT n n m' i' j' \<longrightarrow>
              (\<exists>i0\<in>{0..<n}. row_of h m' i' = row_of h AT i0 \<and> load h1 m' i' j' = Inr (a j' i0))"
    by blast
  have t: "holds h1 AT n n (\<lambda>i j. a j i)"
    using holds_filled [OF assms(3), of n h1 "\<lambda>i j. a j i"] h1(3) by simp
  have b2: "block h1 A2 n n" using assms(5) by (simp add: same_shape_block [OF h1(2)])
  have o2: "own_rows h1 A2 n" using assms(6) by (simp add: same_shape_own_rows [OF h1(2)])
  have a2: "apart h1 A2 n AT n" using assms(7) by (simp add: same_shape_apart [OF h1(2)])
  from matrix_transpose_result [OF t b2 a2]
  obtain h2 where h2: "matrix_transpose AT A2 n h1 = Inr h2"
    "\<forall>m' i' j'. in_block h1 A2 n n m' i' j' \<longrightarrow>
              (\<exists>i0\<in>{0..<n}. row_of h1 m' i' = row_of h1 A2 i0 \<and> load h2 m' i' j' = Inr (a i0 j'))"
    by blast
  have r: "holds h2 A2 n n a"
    using holds_filled [OF o2, of n h2 a] h2(2) by simp
  have "\<forall>i\<in>{0..<n}. \<forall>j\<in>{0..<n}. load h2 A2 i j = load h A i j"
    using holds_load [OF r] holds_load [OF assms(1)] by simp
  with h1(1) t h2(1) r show ?thesis by blast
qed

theorem matrix_transpose_twice_witness:
  "holds example_heap 9 2 2 (\<lambda>i j. of_int (5 + 2 * i + j))
   \<and> block example_heap 6 2 2 \<and> own_rows example_heap 6 2 \<and> apart example_heap 6 2 9 2
   \<and> block example_heap 0 2 2 \<and> own_rows example_heap 0 2 \<and> apart example_heap 0 2 6 2
   \<and> (\<exists>h1 h2. matrix_transpose 9 6 2 example_heap = Inr h1 \<and>
         load h1 6 0 1 = Inr 7 \<and> load h1 6 1 0 = Inr 6 \<and>
         matrix_transpose 6 0 2 h1 = Inr h2 \<and>
         load h2 0 0 1 = Inr 6 \<and> load h2 0 1 0 = Inr 7)"
proof -
  from matrix_transpose_twice
    [OF ex_holds(4) ex_blocks(3) ex_own_rows(3) ex_apart(7) ex_blocks(1) ex_own_rows(1) ex_apart(8)]
  obtain h1 h2 where h: "matrix_transpose 9 6 2 example_heap = Inr h1"
    "holds h1 6 2 2 (\<lambda>i j. of_int (5 + 2 * j + i))"
    "matrix_transpose 6 0 2 h1 = Inr h2"
    "holds h2 0 2 2 (\<lambda>i j. of_int (5 + 2 * i + j))"
    by blast
  have "load h1 6 0 1 = Inr 7" "load h1 6 1 0 = Inr 6"
    using holds_load [OF h(2), of 0 1] holds_load [OF h(2), of 1 0] by simp_all
  moreover have "load h2 0 0 1 = Inr 6" "load h2 0 1 0 = Inr 7"
    using holds_load [OF h(4), of 0 1] holds_load [OF h(4), of 1 0] by simp_all
  ultimately show ?thesis
    using h(1,3) ex_holds(4) ex_blocks(3) ex_own_rows(3) ex_apart(7) ex_blocks(1) ex_own_rows(1)
      ex_apart(8) by blast
qed

text \<open>
  C10.  \<^verbatim>\<open>initialize_matrix_local\<close>, run with the value \<open>v\<close> on a \<open>rows x cols\<close> block of any
  heap, returns and leaves \<open>v\<close> in every cell of the block.  So two runs with the same value,
  on two blocks in two heaps with whatever contents, leave blocks that agree cell by cell.
  \<^verbatim>\<open>initialize_matrix\<close> of the serial program is the same function on an \<open>n x n\<close> block.
\<close>

theorem initialize_forgets_contents:
  assumes "block h1 M1 rows cols" and "block h2 M2 rows cols"
  shows "(\<exists>h1' h2'. initialize_matrix_local M1 rows cols v h1 = Inr h1' \<and>
                   initialize_matrix_local M2 rows cols v h2 = Inr h2' \<and>
                   holds h1' M1 rows cols (\<lambda>i j. v) \<and> holds h2' M2 rows cols (\<lambda>i j. v) \<and>
                   (\<forall>i\<in>{0..<rows}. \<forall>j\<in>{0..<cols}. load h1' M1 i j = load h2' M2 i j))
       \<and> initialize_matrix M1 n v = initialize_matrix_local M1 n n v"
proof
  have one: "\<exists>h'. initialize_matrix_local M rows cols v h = Inr h' \<and> holds h' M rows cols (\<lambda>i j. v)"
    if "block h M rows cols" for h :: "'a heap" and M
  proof -
    from initialize_matrix_local_result [OF that, of v]
    obtain h' where h': "initialize_matrix_local M rows cols v h = Inr h'"
      "\<forall>m' i' j'. in_block h M rows cols m' i' j' \<longrightarrow> load h' m' i' j' = Inr v"
      by blast
    have "load h' M i j = Inr v" if "i \<in> {0..<rows}" "j \<in> {0..<cols}" for i j
    proof -
      have "in_block h M rows cols M i j" using that by (auto simp: in_block_def)
      then show ?thesis using h'(2) by blast
    qed
    then have "holds h' M rows cols (\<lambda>i j. v)" by (simp add: holds_def)
    with h'(1) show ?thesis by blast
  qed
  from one [OF assms(1)] obtain h1' where h1': "initialize_matrix_local M1 rows cols v h1 = Inr h1'"
    "holds h1' M1 rows cols (\<lambda>i j. v)" by blast
  from one [OF assms(2)] obtain h2' where h2': "initialize_matrix_local M2 rows cols v h2 = Inr h2'"
    "holds h2' M2 rows cols (\<lambda>i j. v)" by blast
  have "\<forall>i\<in>{0..<rows}. \<forall>j\<in>{0..<cols}. load h1' M1 i j = load h2' M2 i j"
    using holds_load [OF h1'(2)] holds_load [OF h2'(2)] by simp
  with h1' h2' show "\<exists>h1' h2'. initialize_matrix_local M1 rows cols v h1 = Inr h1' \<and>
                   initialize_matrix_local M2 rows cols v h2 = Inr h2' \<and>
                   holds h1' M1 rows cols (\<lambda>i j. v) \<and> holds h2' M2 rows cols (\<lambda>i j. v) \<and>
                   (\<forall>i\<in>{0..<rows}. \<forall>j\<in>{0..<cols}. load h1' M1 i j = load h2' M2 i j)"
    by blast
  show "initialize_matrix M1 n v = initialize_matrix_local M1 n n v"
    by (rule initialize_matrix_eq)
qed

theorem initialize_forgets_contents_witness:
  "block example_heap 0 2 2 \<and> block example_heap 9 2 2
   \<and> load example_heap 0 1 0 = Inr 1 \<and> load example_heap 9 1 0 = Inr 7
   \<and> (\<exists>h1' h2'. initialize_matrix_local 0 2 2 3 example_heap = Inr h1' \<and>
                 initialize_matrix_local 9 2 2 3 example_heap = Inr h2' \<and>
                 load h1' 0 1 0 = Inr 3 \<and> load h2' 9 1 0 = Inr 3)"
proof -
  from initialize_forgets_contents [OF ex_blocks(1) ex_blocks(4), of 3]
  obtain h1' h2' where h: "initialize_matrix_local 0 2 2 3 example_heap = Inr h1'"
    "initialize_matrix_local 9 2 2 3 example_heap = Inr h2'"
    "holds h1' 0 2 2 (\<lambda>i j. 3)" "holds h2' 9 2 2 (\<lambda>i j. 3)"
    by blast
  have "load h1' 0 1 0 = Inr 3" "load h2' 9 1 0 = Inr 3"
    using holds_load [OF h(3), of 1 0] holds_load [OF h(4), of 1 0] by simp_all
  moreover have "load example_heap 0 1 0 = Inr 1" "load example_heap 9 1 0 = Inr 7"
    using holds_load [OF ex_holds(1), of 1 0] holds_load [OF ex_holds(4), of 1 0] by simp_all
  ultimately show ?thesis using h(1,2) ex_blocks(1) ex_blocks(4) by blast
qed

section \<open>Sums in exact arithmetic\<close>

lemma int_range_Suc: "0 \<le> n \<Longrightarrow> {0..<n + 1} = insert n {0..<n::int}"
  by auto

lemma foldl_add_upto:
  fixes f :: "int \<Rightarrow> real"
  shows "foldl (\<lambda>acc k. acc + f k) z [0..n - 1] = z + (\<Sum>k\<in>{0..<n}. f k)"
proof (cases "0 \<le> n")
  case False
  then show ?thesis by simp
next
  case True
  then show ?thesis
  proof (induction n rule: int_ge_induct)
    case base
    show ?case by simp
  next
    case (step i)
    have "foldl (\<lambda>acc k. acc + f k) z [0..i + 1 - 1] = foldl (\<lambda>acc k. acc + f k) z [0..i - 1] + f i"
      using foldl_upto_snoc [OF step.hyps, of "\<lambda>acc k. acc + f k" z] by simp
    then show ?case using step by (simp add: int_range_Suc)
  qed
qed

lemma dot_exact: "dot exact_arith a b n i j = (\<Sum>k\<in>{0..<n}. a i k * b k j)"
  unfolding dot_def exact_arith_def using foldl_add_upto [of "\<lambda>k. a i k * b k j" 0 n] by simp

lemma sum_squares_exact:
  "sum_squares exact_arith a rows cols = (\<Sum>i\<in>{0..<rows}. \<Sum>j\<in>{0..<cols}. a i j * a i j)"
proof -
  have "sum_squares exact_arith a rows cols
      = foldl (\<lambda>s i. s + (\<Sum>j\<in>{0..<cols}. a i j * a i j)) 0 [0..rows - 1]"
    unfolding sum_squares_def exact_arith_def by (simp add: foldl_add_upto)
  then show ?thesis by (simp add: foldl_add_upto)
qed

lemma sum_shift_int:
  fixes f :: "int \<Rightarrow> real"
  shows "(\<Sum>i\<in>{0..<e - s}. f (s + i)) = (\<Sum>i\<in>{s..<e}. f i)"
proof -
  have "bij_betw (\<lambda>i. s + i) {0..<e - s} {s..<e}"
    by (rule bij_betw_byWitness [where f' = "\<lambda>i. i - s"]) auto
  then show ?thesis by (rule sum.reindex_bij_betw)
qed

lemma sum_consecutive:
  fixes f :: "int \<Rightarrow> real" and s :: "int \<Rightarrow> int"
  assumes "0 \<le> k" "\<And>r. 0 \<le> r \<Longrightarrow> r < k \<Longrightarrow> s r \<le> s (r + 1)"
  shows "(\<Sum>r\<in>{0..<k}. \<Sum>i\<in>{s r..<s (r + 1)}. f i) = (\<Sum>i\<in>{s 0..<s k}. f i)"
  using assms
proof (induction k rule: int_ge_induct)
  case base
  show ?case by simp
next
  case (step i)
  have mono: "s 0 \<le> s i"
    using step.hyps step.prems
  proof (induction i rule: int_ge_induct)
    case base show ?case by simp
  next
    case (step j)
    then show ?case by (smt (verit))
  qed
  have le: "s i \<le> s (i + 1)" using step.prems step.hyps by simp
  have IH: "(\<Sum>r\<in>{0..<i}. \<Sum>i\<in>{s r..<s (r + 1)}. f i) = (\<Sum>i\<in>{s 0..<s i}. f i)"
    using step.IH step.prems by simp
  have "{s 0..<s (i + 1)} = {s 0..<s i} \<union> {s i..<s (i + 1)}" using mono le by auto
  moreover have "{s 0..<s i} \<inter> {s i..<s (i + 1)} = {}" by auto
  ultimately have "(\<Sum>i\<in>{s 0..<s (i + 1)}. f i)
      = (\<Sum>i\<in>{s 0..<s i}. f i) + (\<Sum>i\<in>{s i..<s (i + 1)}. f i)"
    by (simp add: sum.union_disjoint)
  then show ?case using IH step.hyps by (simp add: int_range_Suc)
qed

lemma reduce_sum_exact:
  assumes "1 \<le> k"
  shows "reduce_sum exact_arith (map p [0..k - 1]) = (\<Sum>r\<in>{0..<k}. p r)"
proof -
  have l: "[0..k - 1] = 0 # [1..k - 1]" using assms by (simp add: upto_rec1)
  have "reduce_sum exact_arith (map p [0..k - 1]) = foldl (+) (p 0) (map p [1..k - 1])"
    unfolding l by (simp add: exact_arith_def)
  also have "\<dots> = p 0 + sum_list (map p [1..k - 1])"
    by (simp add: foldl_conv_fold fold_plus_sum_list_rev add.commute)
  also have "\<dots> = sum_list (map p [0..k - 1])" unfolding l by simp
  also have "\<dots> = (\<Sum>r\<in>set [0..k - 1]. p r)"
    by (simp add: sum_list_distinct_conv_sum_set)
  also have "set [0..k - 1] = {0..<k}" by auto
  finally show ?thesis .
qed

lemma multiply_then_norm:
  assumes "worker_ready h A B C rows n a b"
  shows "\<exists>h'. bind (matrix_multiply_local F A B C rows n h) (compute_local_norm F C rows n)
              = Inr (sum_squares F (dot F a b n) rows n, h')"
proof -
  from assms have w: "holds h A rows n a" "holds h B n n b" "block h C rows n" "own_rows h C rows"
    "apart h C rows A rows" "apart h C rows B n"
    by (simp_all add: worker_ready_def)
  from matrix_multiply_local_result [OF w(1,2,3,5,6), of F]
  obtain h' where h': "matrix_multiply_local F A B C rows n h = Inr h'"
    "\<forall>m' i' j'. in_block h C rows n m' i' j' \<longrightarrow>
              (\<exists>i0\<in>{0..<rows}. row_of h m' i' = row_of h C i0 \<and>
                  load h' m' i' j' = Inr (dot F a b n i0 j'))"
    by blast
  have "holds h' C rows n (dot F a b n)" using holds_filled [OF w(4) h'(2)] .
  from compute_local_norm_result [OF this, of F] h'(1) show ?thesis by simp
qed

lemma multiply_then_frobenius:
  "bind (matrix_multiply F A B C n g) (compute_frobenius_norm F C n) =
     bind (bind (matrix_multiply_local F A B C n n g) (compute_local_norm F C n n))
       (\<lambda>(s, g'). Inr (d_sqrt F (reduce_sum F [s]), g'))"
  by (cases "matrix_multiply_local F A B C n n g")
     (simp_all add: matrix_multiply_eq compute_frobenius_norm_eq)

lemma chunk_first_valid:
  assumes "0 \<le> rank" "rank < nranks" "nranks \<le> INT_MAX" "0 \<le> n" "n \<le> INT_MAX"
  shows "chunk_first rank nranks n = split_point rank nranks n"
  by (simp add: chunk_first_def compute_local_chunk_valid [OF assms])

lemma chunk_count_split:
  assumes "0 \<le> rank" "rank < nranks" "nranks \<le> INT_MAX" "0 \<le> n" "n \<le> INT_MAX"
  shows "chunk_count rank nranks n = split_point (rank + 1) nranks n - split_point rank nranks n"
  by (simp add: chunk_count_def compute_local_chunk_valid [OF assms])

lemma partition_sum:
  fixes g :: "int \<Rightarrow> real"
  assumes "1 \<le> nranks" "nranks \<le> INT_MAX" "0 \<le> n" "n \<le> INT_MAX"
  shows "(\<Sum>r\<in>{0..<nranks}. \<Sum>i\<in>{0..<chunk_count r nranks n}. g (chunk_first r nranks n + i))
       = (\<Sum>i\<in>{0..<n}. g i)"
proof -
  have pos: "0 < nranks" using assms by simp
  have "(\<Sum>r\<in>{0..<nranks}. \<Sum>i\<in>{0..<chunk_count r nranks n}. g (chunk_first r nranks n + i))
      = (\<Sum>r\<in>{0..<nranks}. \<Sum>i\<in>{split_point r nranks n..<split_point (r + 1) nranks n}. g i)"
  proof (rule sum.cong [OF refl])
    fix r assume "r \<in> {0..<nranks}"
    then have r: "0 \<le> r" "r < nranks" by simp_all
    show "(\<Sum>i\<in>{0..<chunk_count r nranks n}. g (chunk_first r nranks n + i))
        = (\<Sum>i\<in>{split_point r nranks n..<split_point (r + 1) nranks n}. g i)"
      unfolding chunk_first_valid [OF r assms(2,3,4)] chunk_count_split [OF r assms(2,3,4)]
      by (rule sum_shift_int)
  qed
  also have "\<dots> = (\<Sum>i\<in>{split_point 0 nranks n..<split_point nranks nranks n}. g i)"
    using sum_consecutive [of nranks "\<lambda>r. split_point r nranks n" g]
      split_point_le_next [OF pos assms(3)] pos by simp
  also have "\<dots> = (\<Sum>i\<in>{0..<n}. g i)"
  proof -
    have "n mod nranks \<ge> 0" using pos by simp
    then have "split_point 0 nranks n = 0" by (simp add: split_point_def)
    then show ?thesis by (simp add: split_point_last [OF pos])
  qed
  finally show ?thesis .
qed

lemma int_range1: "{0..<1::int} = {0}" by auto

lemma ex_ready:
  "worker_ready example_heap 0 3 6 2 2 (\<lambda>i k. 1) (\<lambda>k j. 2)"
  "worker_ready example_heap 0 3 6 1 2 (\<lambda>i k. 1) (\<lambda>k j. 2)"
proof -
  show "worker_ready example_heap 0 3 6 2 2 (\<lambda>i k. 1) (\<lambda>k j. 2)"
    unfolding worker_ready_def
    using ex_holds(1,2) ex_blocks(3) ex_own_rows(3) ex_apart(1,2) by simp
  have "holds example_heap 0 1 2 (\<lambda>i k. 1)" using ex_holds(1) by (simp add: holds_def)
  moreover have "block example_heap 6 1 2" using ex_blocks(3) by (simp add: block_def)
  moreover have "own_rows example_heap 6 1" by (simp add: own_rows_def int_range1)
  moreover have "apart example_heap 6 1 0 1" using ex_apart(1) by (simp add: apart_def)
  moreover have "apart example_heap 6 1 3 2" using ex_apart(2) by (simp add: apart_def)
  ultimately show "worker_ready example_heap 0 3 6 1 2 (\<lambda>i k. 1) (\<lambda>k j. 2)"
    unfolding worker_ready_def using ex_holds(2) by simp
qed

lemma ex_chunks: "chunk_count 0 2 2 = 1" "chunk_count 1 2 2 = 1"
  by (simp_all add: chunk_count_def compute_local_chunk_def c_div_def c_mod_def c_int_def int_ok_def
        INT_MIN_def INT_MAX_def)

section \<open>Allocation\<close>

lemma for_loop_partial:
  assumes "for_loop lo hi body s = Inr s'" and "lo \<le> hi" and "I lo s"
    and "\<And>i t t'. lo \<le> i \<Longrightarrow> i < hi \<Longrightarrow> I i t \<Longrightarrow> body i t = Inr t' \<Longrightarrow> I (i + 1) t'"
  shows "I hi s'"
proof -
  have "lo \<le> i \<Longrightarrow> i \<le> hi \<Longrightarrow> I i s \<Longrightarrow> for_loop i hi body s = Inr s' \<Longrightarrow> I hi s'" for i s
  proof (induction "nat (hi - i)" arbitrary: i s)
    case 0
    then have "i = hi" by simp
    then show ?case using "0.prems" by (simp add: for_loop_done)
  next
    case (Suc d)
    then have lt: "i < hi" by simp
    from Suc.prems(4) lt obtain t' where t': "body i s = Inr t'" "for_loop (i + 1) hi body t' = Inr s'"
      by (cases "body i s") (simp_all add: for_loop_step)
    have I': "I (i + 1) t'" using assms(4) [OF Suc.prems(1) lt Suc.prems(3) t'(1)] .
    have "d = nat (hi - (i + 1))" using Suc.hyps(2) by simp
    from Suc.hyps(1) [OF this _ _ I' t'(2)] Suc.prems(1) lt show ?case by simp
  qed
  from this [of lo s] assms show ?thesis by simp
qed

lemma alloc_bytes_nonneg: "0 \<le> c \<Longrightarrow> c \<le> INT_MAX \<Longrightarrow> alloc_bytes c = 8 * nat c"
proof -
  assume c: "0 \<le> c" "c \<le> INT_MAX"
  then have "c * 8 < 2 ^ 64" by (simp add: INT_MAX_def)
  then have "(c * 8) mod 2 ^ 64 = c * 8" using c(1) by simp
  then show ?thesis using c(1) by (simp add: alloc_bytes_def nat_mult_distrib)
qed

lemma alloc_state_0:
  assumes "0 \<le> rows" "rows \<le> INT_MAX"
  shows "malloc_ptrs rows h =
           (if avail h < 8 * nat rows then None else Some (next_addr h, alloc_state h rows cols 0))"
proof -
  have "(\<lambda>p. if next_addr h < p \<and> p \<le> next_addr h then Some (map (junk h p) [0..<nat cols])
             else dbl_arrays h p) = dbl_arrays h"
    by (rule ext) auto
  then show ?thesis
    by (simp add: malloc_ptrs_def alloc_bytes_nonneg [OF assms] alloc_state_def Let_def)
qed

lemma replicate_update_first:
  "0 < k \<Longrightarrow> (xs @ replicate k y)[length xs := z] = (xs @ [z]) @ replicate (k - 1) y"
  by (cases k) (simp_all add: list_update_append)

lemma alloc_state_step:
  assumes i: "0 \<le> i" "i < rows" and cols: "0 \<le> cols" "cols \<le> INT_MAX"
    and mem: "8 * nat rows + 8 * nat i * nat cols \<le> avail h"
  shows "(case malloc_dbls cols (alloc_state h rows cols i) of
            None \<Rightarrow> Inl Allocation_Failed
          | Some (p, h3) \<Rightarrow> store_ptr (next_addr h) i p h3)
       = (if 8 * nat rows + 8 * nat (i + 1) * nat cols \<le> avail h
          then Inr (alloc_state h rows cols (i + 1)) else Inl Allocation_Failed)"
proof (cases "8 * nat rows + 8 * nat (i + 1) * nat cols \<le> avail h")
  case False
  have e: "8 * nat (i + 1) * nat cols = 8 * nat i * nat cols + 8 * nat cols"
    using i by (simp add: nat_add_distrib algebra_simps)
  have "avail (alloc_state h rows cols i) = avail h - 8 * nat rows - 8 * nat i * nat cols"
    by (simp add: alloc_state_def)
  then have "avail (alloc_state h rows cols i) < 8 * nat cols"
    using False mem unfolding e by linarith
  then show ?thesis using False
    by (simp add: malloc_dbls_def alloc_bytes_nonneg [OF cols])
next
  case True
  have ni: "nat (i + 1) = Suc (nat i)" using i by simp
  have e: "8 * nat (i + 1) * nat cols = 8 * nat i * nat cols + 8 * nat cols"
    using i by (simp add: nat_add_distrib algebra_simps)
  have "avail (alloc_state h rows cols i) = avail h - 8 * nat rows - 8 * nat i * nat cols"
    by (simp add: alloc_state_def)
  then have av: "\<not> avail (alloc_state h rows cols i) < 8 * nat cols"
    using True mem unfolding e by linarith
  have lt: "nat i < nat rows" using i by simp
  let ?m = "next_addr h"
  have upd: "(map (\<lambda>k. Some (Suc (?m + k))) [0..<nat i] @ replicate (nat rows - nat i) None)
                 [nat i := Some (Suc (?m + nat i))]
      = map (\<lambda>k. Some (Suc (?m + k))) [0..<Suc (nat i)] @ replicate (nat rows - Suc (nat i)) None"
    using replicate_update_first [of "nat rows - nat i" "map (\<lambda>k. Some (Suc (?m + k))) [0 ..< nat i]"
        None "Some (Suc (?m + nat i))"] lt
    by simp
  have d: "(\<lambda>p. if ?m < p \<and> p \<le> ?m + nat i then Some (map (junk h p) [0..<nat cols])
                 else dbl_arrays h p)
             (Suc (?m + nat i) \<mapsto> map (junk h (Suc (?m + nat i))) [0..<nat cols])
         = (\<lambda>p. if ?m < p \<and> p \<le> Suc (?m + nat i) then Some (map (junk h p) [0..<nat cols])
                 else dbl_arrays h p)"
    by (rule ext) auto
  have a: "avail h - (8 * nat rows + 8 * nat i * nat cols + 8 * nat cols)
         = avail h - (8 * nat rows + (8 + 8 * nat i) * nat cols)"
    by (simp add: algebra_simps)
  show ?thesis
    using True av lt i(1)
    by (simp add: malloc_dbls_def alloc_bytes_nonneg [OF cols] store_ptr_def alloc_state_def ni
          upd d a del: upt_Suc replicate.simps)
qed

lemma rows_cols_le:
  assumes "0 \<le> i" "i \<le> rows"
  shows "8 * nat rows + 8 * nat i * nat cols \<le> 8 * nat rows + 8 * nat rows * nat cols"
proof -
  have "nat i \<le> nat rows" using assms by simp
  then have "nat i * nat cols \<le> nat rows * nat cols" by (rule mult_le_mono1)
  then show ?thesis by simp
qed

lemma allocate_enough:
  assumes rows: "0 \<le> rows" "rows \<le> INT_MAX" and cols: "0 \<le> cols" "cols \<le> INT_MAX"
    and mem: "8 * nat rows + 8 * nat rows * nat cols \<le> avail h"
  shows "allocate_matrix_local rows cols h = Inr (next_addr h, alloc_state h rows cols rows)"
proof -
  let ?body = "\<lambda>i h2. (case malloc_dbls cols h2 of
                     None \<Rightarrow> Inl Allocation_Failed
                   | Some (p, h3) \<Rightarrow> store_ptr (next_addr h) i p h3)"
  define I where "I i t \<longleftrightarrow> t = alloc_state h rows cols i" for i t
  have m0: "malloc_ptrs rows h = Some (next_addr h, alloc_state h rows cols 0)"
    using mem alloc_state_0 [OF rows, of h cols] by simp
  have I0: "I 0 (alloc_state h rows cols 0)" by (simp add: I_def)
  have Istep: "\<exists>t'. ?body i t = Inr t' \<and> I (i + 1) t'" if i: "0 \<le> i" "i < rows" and It: "I i t" for i t
  proof -
    have "i \<le> rows" "0 \<le> i + 1" "i + 1 \<le> rows" using i by simp_all
    then have a: "8 * nat rows + 8 * nat i * nat cols \<le> avail h"
      and b: "8 * nat rows + 8 * nat (i + 1) * nat cols \<le> avail h"
      using rows_cols_le [of i rows cols] rows_cols_le [of "i + 1" rows cols] i(1) mem
      by linarith+
    show ?thesis using alloc_state_step [OF i cols a] b It by (simp add: I_def)
  qed
  from for_loop_invariant [of 0 rows I "alloc_state h rows cols 0" ?body, OF rows(1) I0 Istep]
  have "for_loop 0 rows ?body (alloc_state h rows cols 0) = Inr (alloc_state h rows cols rows)"
    by (simp add: I_def)
  then show ?thesis by (simp add: allocate_matrix_local_def m0)
qed

lemma allocate_success:
  assumes rows: "0 \<le> rows" "rows \<le> INT_MAX" and cols: "0 \<le> cols" "cols \<le> INT_MAX"
    and ok: "allocate_matrix_local rows cols h = Inr (m, h')"
  shows "m = next_addr h \<and> h' = alloc_state h rows cols rows \<and>
         8 * nat rows + 8 * nat rows * nat cols \<le> avail h"
proof -
  let ?body = "\<lambda>i h2. (case malloc_dbls cols h2 of
                     None \<Rightarrow> Inl Allocation_Failed
                   | Some (p, h3) \<Rightarrow> store_ptr (next_addr h) i p h3)"
  define I where "I i t \<longleftrightarrow> t = alloc_state h rows cols i \<and>
      8 * nat rows + 8 * nat i * nat cols \<le> avail h" for i t
  have av: "\<not> avail h < 8 * nat rows"
    using ok unfolding allocate_matrix_local_def alloc_state_0 [OF rows, of h cols]
    by (auto split: if_splits)
  then have m0: "malloc_ptrs rows h = Some (next_addr h, alloc_state h rows cols 0)"
    using alloc_state_0 [OF rows, of h cols] by simp
  from ok have m: "m = next_addr h"
    and loop: "for_loop 0 rows ?body (alloc_state h rows cols 0) = Inr h'"
    unfolding allocate_matrix_local_def m0
    by (cases "for_loop 0 rows ?body (alloc_state h rows cols 0)"; simp)+
  have I0: "I 0 (alloc_state h rows cols 0)" using av by (simp add: I_def)
  have Istep: "I (i + 1) t'" if i: "0 \<le> i" "i < rows" and It: "I i t" and b: "?body i t = Inr t'"
    for i t t'
  proof -
    have t: "t = alloc_state h rows cols i" and a: "8 * nat rows + 8 * nat i * nat cols \<le> avail h"
      using It by (simp_all add: I_def)
    from b show ?thesis
      unfolding t alloc_state_step [OF i cols a] I_def by (simp split: if_splits)
  qed
  have "I rows h'"
  proof (rule for_loop_partial [where I = I, OF loop rows(1) I0])
    fix i t t'
    assume "0 \<le> i" "i < rows" "I i t" "?body i t = Inr t'"
    then show "I (i + 1) t'" by (rule Istep)
  qed
  then show ?thesis using m by (simp add: I_def)
qed

lemma alloc_state_row_of:
  assumes "0 \<le> k" "k < rows"
  shows "row_of (alloc_state h rows cols rows) (next_addr h) k = Some (next_addr h + 1 + nat k)"
  using assms by (simp add: row_of_def alloc_state_def nth_append)

lemma alloc_state_load:
  assumes "0 \<le> k" "k < rows" "0 \<le> j" "j < cols"
  shows "load (alloc_state h rows cols rows) (next_addr h) k j
           = Inr (junk h (next_addr h + 1 + nat k) (nat j))"
proof -
  have "Suc (nat k) \<le> nat rows" using assms by linarith
  then have "dbl_arrays (alloc_state h rows cols rows) (next_addr h + 1 + nat k)
      = Some (map (junk h (next_addr h + 1 + nat k)) [0..<nat cols])"
    unfolding alloc_state_def by (simp del: zless_nat_conj Suc_le_eq)
  then show ?thesis
    using assms by (simp add: load_def alloc_state_row_of [OF assms(1,2)])
qed

lemma alloc_state_block:
  "block (alloc_state h rows cols rows) (next_addr h) rows cols"
proof -
  have "dbl_arrays (alloc_state h rows cols rows) (next_addr h + 1 + nat k)
      = Some (map (junk h (next_addr h + 1 + nat k)) [0..<nat cols])" if "0 \<le> k" "k < rows" for k
  proof -
    have "Suc (nat k) \<le> nat rows" using that by linarith
    then show ?thesis unfolding alloc_state_def by (simp del: zless_nat_conj Suc_le_eq)
  qed
  then show ?thesis by (simp add: block_def alloc_state_row_of)
qed

lemma alloc_state_own_rows:
  "own_rows (alloc_state h rows cols rows) (next_addr h) rows"
  by (auto simp: own_rows_def alloc_state_row_of)

lemma initialize_holds:
  assumes "block h M rows cols"
  shows "\<exists>h'. initialize_matrix_local M rows cols v h = Inr h' \<and> same_shape h h' \<and>
           holds h' M rows cols (\<lambda>i j. v) \<and>
           (\<forall>m' i' j'. \<not> in_block h M rows cols m' i' j' \<longrightarrow> load h' m' i' j' = load h m' i' j')"
proof -
  from initialize_matrix_local_result [OF assms, of v]
  obtain h' where h': "initialize_matrix_local M rows cols v h = Inr h'" "same_shape h h'"
    "\<forall>m' i' j'. \<not> in_block h M rows cols m' i' j' \<longrightarrow> load h' m' i' j' = load h m' i' j'"
    "\<forall>m' i' j'. in_block h M rows cols m' i' j' \<longrightarrow> load h' m' i' j' = Inr v"
    by blast
  have "load h' M i j = Inr v" if "i \<in> {0..<rows}" "j \<in> {0..<cols}" for i j
  proof -
    have "in_block h M rows cols M i j" using that by (auto simp: in_block_def)
    then show ?thesis using h'(4) by blast
  qed
  then have "holds h' M rows cols (\<lambda>i j. v)" by (simp add: holds_def)
  with h'(1,2,3) show ?thesis by blast
qed

section \<open>Claims about allocation\<close>

text \<open>
  C4, as the specification states it, fails: \<^verbatim>\<open>allocate_matrix_local\<close> takes its memory from
  \<^verbatim>\<open>malloc\<close> and writes no cell.  On the small heap, whose allocator hands out memory
  holding 7, a fresh \<open>1 x 1\<close> block holds 7 and not \<^verbatim>\<open>0.0\<close>.
\<close>

theorem allocate_leaves_junk:
  "allocate_matrix_local 1 1 example_heap = Inr (12, alloc_state example_heap 1 1 1)
   \<and> load (alloc_state example_heap 1 1 1) 12 0 0 = Inr 7
   \<and> (7::real) \<noteq> d_lit exact_arith 0"
proof -
  have n: "next_addr example_heap = 12" and j: "junk example_heap = (\<lambda>p j. 7)"
    and a: "avail example_heap = 1024"
    by (simp_all add: example_heap_def)
  have "allocate_matrix_local 1 1 example_heap
      = Inr (next_addr example_heap, alloc_state example_heap 1 1 1)"
    by (rule allocate_enough) (simp_all add: INT_MAX_def a)
  moreover have "load (alloc_state example_heap 1 1 1) (next_addr example_heap) 0 0
      = Inr (junk example_heap (next_addr example_heap + 1 + nat 0) (nat 0))"
    by (rule alloc_state_load) simp_all
  ultimately show ?thesis by (simp add: n j exact_arith_def)
qed

text \<open>
  C4, amended.  For \<open>rows \<ge> 0\<close> and \<open>cols \<ge> 0\<close>, when \<^verbatim>\<open>allocate_matrix_local\<close> succeeds it
  returns a \<open>rows x cols\<close> block whose rows are pairwise different arrays and whose cells are
  not initialised: cell \<open>(i, j)\<close> holds what the allocator's memory held there (\<open>junk\<close>).
  Every cell holds \<^verbatim>\<open>0.0\<close> once \<^verbatim>\<open>initialize_matrix_local\<close> has run on the block with
  \<^verbatim>\<open>0.0\<close>.  \<^verbatim>\<open>allocate_matrix\<close> of the serial program is the same function with
  \<open>cols = rows\<close>.
\<close>

theorem allocate_block_uninitialised:
  assumes "0 \<le> rows" and "rows \<le> INT_MAX" and "0 \<le> cols" and "cols \<le> INT_MAX"
    and "allocate_matrix_local rows cols h = Inr (m, h')"
  shows "block h' m rows cols \<and> own_rows h' m rows
       \<and> (\<forall>i\<in>{0..<rows}. \<forall>j\<in>{0..<cols}. load h' m i j = Inr (junk h (m + 1 + nat i) (nat j)))
       \<and> (\<exists>h''. initialize_matrix_local m rows cols (d_lit F 0) h' = Inr h'' \<and>
                 holds h'' m rows cols (\<lambda>i j. d_lit F 0))
       \<and> allocate_matrix rows h = allocate_matrix_local rows rows h"
proof -
  from allocate_success [OF assms]
  have m: "m = next_addr h" and h': "h' = alloc_state h rows cols rows" by simp_all
  have b: "block h' m rows cols" unfolding m h' by (rule alloc_state_block)
  have o: "own_rows h' m rows" unfolding m h' by (rule alloc_state_own_rows)
  have l: "\<forall>i\<in>{0..<rows}. \<forall>j\<in>{0..<cols}. load h' m i j = Inr (junk h (m + 1 + nat i) (nat j))"
    unfolding m h' by (simp add: alloc_state_load)
  from initialize_holds [OF b, of "d_lit F 0"]
  have i: "\<exists>h''. initialize_matrix_local m rows cols (d_lit F 0) h' = Inr h'' \<and>
                 holds h'' m rows cols (\<lambda>i j. d_lit F 0)"
    by blast
  have e: "allocate_matrix rows h = allocate_matrix_local rows rows h"
    by (simp add: allocate_matrix_eq)
  show ?thesis using b o l i e by blast
qed

theorem allocate_block_uninitialised_witness:
  "(0::int) \<le> 2 \<and> 2 \<le> INT_MAX \<and> (0::int) \<le> 3 \<and> 3 \<le> INT_MAX
   \<and> allocate_matrix_local 2 3 example_heap = Inr (12, alloc_state example_heap 2 3 2)
   \<and> block (alloc_state example_heap 2 3 2) 12 2 3
   \<and> own_rows (alloc_state example_heap 2 3 2) 12 2
   \<and> load (alloc_state example_heap 2 3 2) 12 1 2 = Inr 7
   \<and> (\<exists>h''. initialize_matrix_local 12 2 3 (d_lit exact_arith 0) (alloc_state example_heap 2 3 2)
               = Inr h'' \<and> load h'' 12 1 2 = Inr 0)"
proof -
  have n: "next_addr example_heap = 12" and j: "junk example_heap = (\<lambda>p j. 7)"
    and a: "avail example_heap = 1024"
    by (simp_all add: example_heap_def)
  have r: "(0::int) \<le> 2" "2 \<le> INT_MAX" "(0::int) \<le> 3" "3 \<le> INT_MAX"
    by (simp_all add: INT_MAX_def)
  have al: "allocate_matrix_local 2 3 example_heap = Inr (12, alloc_state example_heap 2 3 2)"
    using allocate_enough [OF r, of example_heap] by (simp add: a n)
  note t = allocate_block_uninitialised [OF r al, of exact_arith]
  from t have b: "block (alloc_state example_heap 2 3 2) 12 2 3"
    and o: "own_rows (alloc_state example_heap 2 3 2) 12 2" by blast+
  from t have "\<forall>i\<in>{0..<2}. \<forall>j\<in>{0..<3}.
      load (alloc_state example_heap 2 3 2) 12 i j = Inr (junk example_heap (12 + 1 + nat i) (nat j))"
    by blast
  then have l: "load (alloc_state example_heap 2 3 2) 12 1 2 = Inr 7" by (simp add: j)
  from t obtain h'' where h'':
    "initialize_matrix_local 12 2 3 (d_lit exact_arith 0) (alloc_state example_heap 2 3 2) = Inr h''"
    "holds h'' 12 2 3 (\<lambda>i j. d_lit exact_arith 0)"
    by blast
  have "load h'' 12 1 2 = Inr 0"
    using holds_load [OF h''(2), of 1 2] by (simp add: exact_arith_def)
  with h''(1) r al b o l show ?thesis by blast
qed

section \<open>Claims about the programs\<close>

text \<open>
  C7.  When a matrix size \<open>n \<le> 0\<close> is supplied, \<^verbatim>\<open>main\<close> of the serial program returns status 1
  with the message on \<^verbatim>\<open>stderr\<close>, prints no norm and leaves the heap as it found it: nothing
  was allocated or computed.  So does every process of the MPI program (only rank 0 writes
  the message), and none of them enters a collective call.
\<close>

theorem nonpositive_size_rejected:
  assumes "n \<le> 0"
  shows "serial_main F (Some n) h =
           Inr \<lparr>status = 1, err_output = [''Matrix size must be positive''], norms = [], mem = h\<rparr>
       \<and> mpi_main_to_reduce F rank nranks (Some n) (hs rank) =
           Inr (Returned \<lparr>status = 1,
                  err_output = (if rank = 0 then [''Matrix size must be positive''] else []),
                  norms = [], mem = hs rank\<rparr>)
       \<and> mpi_program F nranks (Some n) hs rank =
           Inr \<lparr>status = 1,
                err_output = (if rank = 0 then [''Matrix size must be positive''] else []),
                norms = [], mem = hs rank\<rparr>"
  using assms by (simp add: serial_main_def mpi_main_to_reduce_def mpi_program_def)

theorem nonpositive_size_rejected_witness:
  "(- 3::int) \<le> 0
   \<and> serial_main exact_arith (Some (- 3)) example_heap =
        Inr \<lparr>status = 1, err_output = [''Matrix size must be positive''], norms = [],
             mem = example_heap\<rparr>
   \<and> mpi_program exact_arith 4 (Some (- 3)) (\<lambda>r. example_heap) 2 =
        Inr \<lparr>status = 1, err_output = [], norms = [], mem = example_heap\<rparr>"
proof -
  have h: "(- 3::int) \<le> 0" by simp
  from nonpositive_size_rejected [OF h, of exact_arith example_heap 2 4 "\<lambda>r. example_heap"] h
  show ?thesis by simp
qed

section \<open>Matrices as the allocator lays them out\<close>

lemma matrix_at_row_of:
  assumes "matrix_at h X rows cols" "0 \<le> k" "k < rows"
  shows "row_of h X k = Some (X + 1 + nat k)"
proof -
  have "nat k < nat rows" using assms(2,3) by linarith
  then show ?thesis using assms(1,2) by (simp add: matrix_at_def row_of_def del: zless_nat_conj)
qed

lemma matrix_at_block:
  assumes "matrix_at h X rows cols"
  shows "block h X rows cols"
  unfolding block_def
proof
  fix i assume "i \<in> {0..<rows}"
  then have i: "0 \<le> i" "i < rows" by simp_all
  then have "nat i < nat rows" by linarith
  with assms obtain xs where "dbl_arrays h (X + 1 + nat i) = Some xs" "length xs = nat cols"
    unfolding matrix_at_def by blast
  then show "case row_of h X i of None \<Rightarrow> False
        | Some p \<Rightarrow> (case dbl_arrays h p of None \<Rightarrow> False | Some xs \<Rightarrow> cols \<le> int (length xs))"
    by (simp add: matrix_at_row_of [OF assms i])
qed

lemma matrix_at_own_rows:
  assumes "matrix_at h X rows cols"
  shows "own_rows h X rows"
  unfolding own_rows_def
proof (intro ballI impI)
  fix i i' assume "i \<in> {0..<rows}" "i' \<in> {0..<rows}" and e: "row_of h X i = row_of h X i'"
  then have i: "0 \<le> i" "i < rows" "0 \<le> i'" "i' < rows" by simp_all
  from e show "i = i'"
    using i(1,3) by (simp add: matrix_at_row_of [OF assms i(1,2)] matrix_at_row_of [OF assms i(3,4)])
qed

lemma matrix_at_apart:
  assumes "matrix_at h X rows cols" "matrix_at h Y rows' cols'"
    and "X + nat rows < Y \<or> Y + nat rows' < X"
  shows "apart h X rows Y rows'"
  unfolding apart_def
proof (intro ballI)
  fix i i' assume "i \<in> {0..<rows}" "i' \<in> {0..<rows'}"
  then have i: "0 \<le> i" "i < rows" "0 \<le> i'" "i' < rows'" by simp_all
  have "nat i < nat rows" "nat i' < nat rows'" using i by linarith+
  then have "X + 1 + nat i \<noteq> Y + 1 + nat i'" using assms(3) by linarith
  then show "row_of h X i \<noteq> row_of h Y i'"
    by (simp add: matrix_at_row_of [OF assms(1) i(1,2)] matrix_at_row_of [OF assms(2) i(3,4)])
qed

lemma same_shape_matrix_at:
  assumes "same_shape h h'"
  shows "matrix_at h' X rows cols = matrix_at h X rows cols"
proof -
  have l: "(\<exists>xs. dbl_arrays h' p = Some xs \<and> length xs = c)
         = (\<exists>xs. dbl_arrays h p = Some xs \<and> length xs = c)" for p c
  proof -
    have "map_option length (dbl_arrays h' p) = map_option length (dbl_arrays h p)"
      using assms by (simp add: same_shape_def)
    then show ?thesis by (cases "dbl_arrays h' p"; cases "dbl_arrays h p") auto
  qed
  have "ptr_arrays h' = ptr_arrays h" "next_addr h' = next_addr h"
    using assms by (simp_all add: same_shape_def)
  then show ?thesis by (simp add: matrix_at_def l)
qed

lemma alloc_state_fields:
  "next_addr (alloc_state h rows cols i) = next_addr h + 1 + nat i"
  "avail (alloc_state h rows cols i) = avail h - 8 * nat rows - 8 * nat i * nat cols"
  "junk (alloc_state h rows cols i) = junk h"
  by (simp_all add: alloc_state_def)

lemma alloc_state_matrix_at:
  "matrix_at (alloc_state h rows cols rows) (next_addr h) rows cols"
  by (simp add: matrix_at_def alloc_state_def)

lemma alloc_state_keeps:
  assumes "matrix_at h X r c"
  shows "matrix_at (alloc_state h rows cols rows) X r c"
proof -
  have lt: "X + nat r < next_addr h" using assms by (simp add: matrix_at_def)
  have p: "ptr_arrays (alloc_state h rows cols rows) X = ptr_arrays h X"
    using lt by (simp add: alloc_state_def)
  have d: "dbl_arrays (alloc_state h rows cols rows) (X + 1 + k) = dbl_arrays h (X + 1 + k)"
    if "k < nat r" for k
    using lt that by (simp add: alloc_state_def)
  have d': "dbl_arrays (alloc_state h rows cols rows) (Suc (X + k)) = dbl_arrays h (Suc (X + k))"
    if "k < nat r" for k
    using d [OF that] by simp
  show ?thesis using assms lt unfolding matrix_at_def p alloc_state_fields by (simp add: d')
qed

lemma kept:
  assumes "matrix_at h X r c" and "matrix_at h Y r' c'" and "X + nat r < Y \<or> Y + nat r' < X"
    and "holds h Y r' c' a"
    and "\<forall>m' i' j'. \<not> in_block h X r c m' i' j' \<longrightarrow> load h' m' i' j' = load h m' i' j'"
  shows "holds h' Y r' c' a"
  using holds_after [OF assms(4,5) matrix_at_apart [OF assms(1,2,3)]] .

lemma free_matrix_local_at:
  assumes X: "matrix_at h X r c"
  shows "\<exists>h'. free_matrix_local X r h = Inr h' \<and> next_addr h' = next_addr h \<and>
           (\<forall>Y r' c'. matrix_at h Y r' c' \<and> (X + nat r < Y \<or> Y + nat r' < X) \<longrightarrow>
               matrix_at h' Y r' c')"
proof -
  let ?body = "\<lambda>i h1. (case row_of h1 X i of None \<Rightarrow> Inl Invalid_Access | Some p \<Rightarrow> free_dbls p h1)"
  define I where "I k t \<longleftrightarrow> ptr_arrays t = ptr_arrays h \<and> next_addr t = next_addr h \<and>
      (\<forall>p. \<not> (X < p \<and> p \<le> X + nat k) \<longrightarrow> dbl_arrays t p = dbl_arrays h p)"
    for k and t :: "'a heap"
  have loop: "\<exists>t. for_loop 0 r ?body h = Inr t \<and> ptr_arrays t = ptr_arrays h \<and>
      next_addr t = next_addr h \<and>
      (\<forall>p. \<not> (X < p \<and> p \<le> X + nat r) \<longrightarrow> dbl_arrays t p = dbl_arrays h p)"
  proof (cases "0 \<le> r")
    case False
    then show ?thesis by (simp add: for_loop_done)
  next
    case True
    have I0: "I 0 h" by (simp add: I_def)
    have Istep: "\<exists>t'. ?body k t = Inr t' \<and> I (k + 1) t'" if k: "0 \<le> k" "k < r" and It: "I k t" for k t
    proof -
      have lt: "nat k < nat r" using k by linarith
      have "row_of t X k = row_of h X k" using It by (simp add: I_def row_of_def)
      then have ro: "row_of t X k = Some (X + 1 + nat k)"
        using matrix_at_row_of [OF X k] by simp
      have "dbl_arrays t (X + 1 + nat k) = dbl_arrays h (X + 1 + nat k)"
        using It by (simp add: I_def)
      moreover obtain xs where "dbl_arrays h (X + 1 + nat k) = Some xs"
        using X lt unfolding matrix_at_def by blast
      ultimately have d: "dbl_arrays t (X + 1 + nat k) = Some xs" by simp
      let ?t' = "t\<lparr>dbl_arrays := (dbl_arrays t)(X + 1 + nat k := None),
                   avail := avail t + 8 * length xs\<rparr>"
      have b: "?body k t = Inr ?t'" using d by (simp add: ro free_dbls_def)
      have nk: "nat (k + 1) = nat k + 1" using k by simp
      have "I (k + 1) ?t'" using It unfolding I_def nk by auto
      with b show ?thesis by blast
    qed
    from for_loop_invariant [of 0 r I h ?body, OF True I0 Istep]
    show ?thesis by (simp add: I_def)
  qed
  then obtain t where t: "for_loop 0 r ?body h = Inr t" "ptr_arrays t = ptr_arrays h"
    "next_addr t = next_addr h"
    "\<And>p. \<not> (X < p \<and> p \<le> X + nat r) \<Longrightarrow> dbl_arrays t p = dbl_arrays h p"
    by blast
  obtain ps where ps: "ptr_arrays t X = Some ps" using X t(2) by (simp add: matrix_at_def)
  let ?h' = "t\<lparr>ptr_arrays := (ptr_arrays t)(X := None), avail := avail t + 8 * length ps\<rparr>"
  have f: "free_matrix_local X r h = Inr ?h'"
    by (simp add: free_matrix_local_def t(1) free_ptrs_def ps)
  have keep: "matrix_at ?h' Y r' c'"
    if Y: "matrix_at h Y r' c'" and sep: "X + nat r < Y \<or> Y + nat r' < X" for Y r' c'
  proof -
    have ne: "Y \<noteq> X" using sep by auto
    have d: "dbl_arrays t (Y + 1 + k) = dbl_arrays h (Y + 1 + k)" if "k < nat r'" for k
      using t(4) [of "Y + 1 + k"] sep that by auto
    have d': "dbl_arrays t (Suc (Y + k)) = dbl_arrays h (Suc (Y + k))" if "k < nat r'" for k
      using d [OF that] by simp
    show ?thesis using Y ne unfolding matrix_at_def by (simp add: t(2,3) d')
  qed
  show ?thesis using f t(3) keep by auto
qed

section \<open>The phases of the MPI program\<close>

lemma mpi_compute_phase:
  assumes A: "matrix_at h A L n" and B: "matrix_at h B n n"
    and C: "matrix_at h C L n" and D: "matrix_at h D L n"
    and ord: "A + nat L < B" "B + nat n < C" "C + nat L < D"
  shows "\<exists>h'. same_shape h h' \<and>
     (\<forall>K. bind (initialize_matrix_local A L n (d_lit F 1) h) (\<lambda>h.
          bind (initialize_matrix_local B n n (d_lit F 2) h) (\<lambda>h.
          bind (initialize_matrix_local C L n (d_lit F 0) h) (\<lambda>h.
          bind (initialize_matrix_local D L n (d_lit F 0) h) (\<lambda>h.
          bind (matrix_multiply_local F A B C L n h) (\<lambda>h.
          bind (matrix_add_local F C A D L n h) (\<lambda>h.
          bind (compute_local_norm F C L n h) K))))))
        = K (sum_squares F (dot F (\<lambda>i k. d_lit F 1) (\<lambda>k j. d_lit F 2) n) L n, h'))"
proof -
  let ?one = "\<lambda>(i::int) (k::int). d_lit F 1" and ?two = "\<lambda>(k::int) (j::int). d_lit F 2"
  let ?zero = "\<lambda>(i::int) (j::int). d_lit F 0"
  have oAB: "A + nat L < B \<or> B + nat n < A" and oBA: "B + nat n < A \<or> A + nat L < B"
    and oCA: "C + nat L < A \<or> A + nat L < C" and oCB: "C + nat L < B \<or> B + nat n < C"
    and oDA: "D + nat L < A \<or> A + nat L < D" and oDB: "D + nat L < B \<or> B + nat n < D"
    and oDC: "D + nat L < C \<or> C + nat L < D"
    using ord by linarith+
  \<comment> \<open>A filled with 1.0\<close>
  from initialize_holds [OF matrix_at_block [OF A], of "d_lit F 1"]
  obtain h1 where h1: "initialize_matrix_local A L n (d_lit F 1) h = Inr h1" "same_shape h h1"
    "holds h1 A L n ?one" by blast
  note m1 = same_shape_matrix_at [OF h1(2)]
  have A1: "matrix_at h1 A L n" and B1: "matrix_at h1 B n n" and C1: "matrix_at h1 C L n"
    and D1: "matrix_at h1 D L n" using A B C D by (simp_all add: m1)
  \<comment> \<open>B filled with 2.0\<close>
  from initialize_holds [OF matrix_at_block [OF B1], of "d_lit F 2"]
  obtain h2 where h2: "initialize_matrix_local B n n (d_lit F 2) h1 = Inr h2" "same_shape h1 h2"
    "holds h2 B n n ?two"
    "\<forall>m' i' j'. \<not> in_block h1 B n n m' i' j' \<longrightarrow> load h2 m' i' j' = load h1 m' i' j'" by blast
  have a2: "holds h2 A L n ?one" using kept [OF B1 A1 oBA h1(3) h2(4)] .
  note m2 = same_shape_matrix_at [OF h2(2)]
  have A2: "matrix_at h2 A L n" and B2: "matrix_at h2 B n n" and C2: "matrix_at h2 C L n"
    and D2: "matrix_at h2 D L n" using A1 B1 C1 D1 by (simp_all add: m2)
  \<comment> \<open>C and D filled with 0.0\<close>
  from initialize_holds [OF matrix_at_block [OF C2], of "d_lit F 0"]
  obtain h3 where h3: "initialize_matrix_local C L n (d_lit F 0) h2 = Inr h3" "same_shape h2 h3"
    "\<forall>m' i' j'. \<not> in_block h2 C L n m' i' j' \<longrightarrow> load h3 m' i' j' = load h2 m' i' j'" by blast
  have a3: "holds h3 A L n ?one" using kept [OF C2 A2 oCA a2 h3(3)] .
  have b3: "holds h3 B n n ?two" using kept [OF C2 B2 oCB h2(3) h3(3)] .
  note m3 = same_shape_matrix_at [OF h3(2)]
  have A3: "matrix_at h3 A L n" and B3: "matrix_at h3 B n n" and C3: "matrix_at h3 C L n"
    and D3: "matrix_at h3 D L n" using A2 B2 C2 D2 by (simp_all add: m3)
  from initialize_holds [OF matrix_at_block [OF D3], of "d_lit F 0"]
  obtain h4 where h4: "initialize_matrix_local D L n (d_lit F 0) h3 = Inr h4" "same_shape h3 h4"
    "\<forall>m' i' j'. \<not> in_block h3 D L n m' i' j' \<longrightarrow> load h4 m' i' j' = load h3 m' i' j'" by blast
  have a4: "holds h4 A L n ?one" using kept [OF D3 A3 oDA a3 h4(3)] .
  have b4: "holds h4 B n n ?two" using kept [OF D3 B3 oDB b3 h4(3)] .
  note m4 = same_shape_matrix_at [OF h4(2)]
  have A4: "matrix_at h4 A L n" and B4: "matrix_at h4 B n n" and C4: "matrix_at h4 C L n"
    and D4: "matrix_at h4 D L n" using A3 B3 C3 D3 by (simp_all add: m4)
  \<comment> \<open>C = A * B\<close>
  from matrix_multiply_local_result [OF a4 b4 matrix_at_block [OF C4]
      matrix_at_apart [OF C4 A4 oCA] matrix_at_apart [OF C4 B4 oCB], of F]
  obtain h5 where h5: "matrix_multiply_local F A B C L n h4 = Inr h5" "same_shape h4 h5"
    "\<forall>m' i' j'. \<not> in_block h4 C L n m' i' j' \<longrightarrow> load h5 m' i' j' = load h4 m' i' j'"
    "\<forall>m' i' j'. in_block h4 C L n m' i' j' \<longrightarrow>
              (\<exists>i0\<in>{0..<L}. row_of h4 m' i' = row_of h4 C i0 \<and>
                  load h5 m' i' j' = Inr (dot F ?one ?two n i0 j'))"
    by blast
  have c5: "holds h5 C L n (dot F ?one ?two n)"
    using holds_filled [OF matrix_at_own_rows [OF C4] h5(4)] .
  have a5: "holds h5 A L n ?one" using kept [OF C4 A4 oCA a4 h5(3)] .
  note m5 = same_shape_matrix_at [OF h5(2)]
  have A5: "matrix_at h5 A L n" and C5: "matrix_at h5 C L n" and D5: "matrix_at h5 D L n"
    using A4 C4 D4 by (simp_all add: m5)
  \<comment> \<open>D = C + A\<close>
  from matrix_add_local_result [OF c5 a5 matrix_at_block [OF D5]
      matrix_at_apart [OF D5 C5 oDC] matrix_at_apart [OF D5 A5 oDA], of F]
  obtain h6 where h6: "matrix_add_local F C A D L n h5 = Inr h6" "same_shape h5 h6"
    "\<forall>m' i' j'. \<not> in_block h5 D L n m' i' j' \<longrightarrow> load h6 m' i' j' = load h5 m' i' j'"
    by blast
  have c6: "holds h6 C L n (dot F ?one ?two n)" using kept [OF D5 C5 oDC c5 h6(3)] .
  \<comment> \<open>the local sum of squares\<close>
  have n6: "compute_local_norm F C L n h6 = Inr (sum_squares F (dot F ?one ?two n) L n, h6)"
    using compute_local_norm_result [OF c6] .
  have sh: "same_shape h h6"
    using h1(2) h2(2) h3(2) h4(2) h5(2) h6(2) by (blast intro: same_shape_trans)
  show ?thesis
    using sh by (intro exI [of _ h6]) (simp add: h1(1) h2(1) h3(1) h4(1) h5(1) h6(1) n6)
qed

lemma allocate_fresh:
  assumes rows: "0 \<le> rows" "rows \<le> INT_MAX" and cols: "0 \<le> cols" "cols \<le> INT_MAX"
    and mem: "matrix_bytes rows cols \<le> avail h"
  shows "\<exists>h'. allocate_matrix_local rows cols h = Inr (next_addr h, h') \<and>
           matrix_at h' (next_addr h) rows cols \<and>
           next_addr h' = next_addr h + 1 + nat rows \<and>
           avail h' = avail h - matrix_bytes rows cols \<and>
           (\<forall>X r c. matrix_at h X r c \<longrightarrow> matrix_at h' X r c)"
proof -
  have "allocate_matrix_local rows cols h = Inr (next_addr h, alloc_state h rows cols rows)"
    using allocate_enough [OF rows cols] mem by (simp add: matrix_bytes_def)
  moreover have "avail (alloc_state h rows cols rows) = avail h - matrix_bytes rows cols"
    by (simp add: alloc_state_fields matrix_bytes_def)
  ultimately show ?thesis
    using alloc_state_matrix_at [of h rows cols] alloc_state_keeps [of h _ _ _ rows cols]
      alloc_state_fields(1) [of h rows cols rows]
    by blast
qed

lemma mpi_alloc_phase:
  assumes L: "0 \<le> L" "L \<le> INT_MAX" and n: "0 \<le> n" "n \<le> INT_MAX"
    and mem: "3 * matrix_bytes L n + matrix_bytes n n \<le> avail h"
  shows "\<exists>h4 A B C D. matrix_at h4 A L n \<and> matrix_at h4 B n n \<and> matrix_at h4 C L n \<and>
      matrix_at h4 D L n \<and> A + nat L < B \<and> B + nat n < C \<and> C + nat L < D \<and>
      (\<forall>K. bind (allocate_matrix_local L n h) (\<lambda>(A_local, h).
            bind (allocate_matrix_local n n h) (\<lambda>(B, h).
            bind (allocate_matrix_local L n h) (\<lambda>(C_local, h).
            bind (allocate_matrix_local L n h) (\<lambda>(D_local, h).
            K A_local B C_local D_local h)))) = K A B C D h4)"
proof -
  have m0: "matrix_bytes L n \<le> avail h" using mem by simp
  from allocate_fresh [OF L n m0]
  obtain h1 where h1: "allocate_matrix_local L n h = Inr (next_addr h, h1)"
    "matrix_at h1 (next_addr h) L n" "next_addr h1 = next_addr h + 1 + nat L"
    "avail h1 = avail h - matrix_bytes L n" by blast
  have m1: "matrix_bytes n n \<le> avail h1" using mem h1(4) by simp
  from allocate_fresh [OF n n m1]
  obtain h2 where h2: "allocate_matrix_local n n h1 = Inr (next_addr h1, h2)"
    "matrix_at h2 (next_addr h1) n n" "next_addr h2 = next_addr h1 + 1 + nat n"
    "avail h2 = avail h1 - matrix_bytes n n"
    "\<And>X r c. matrix_at h1 X r c \<Longrightarrow> matrix_at h2 X r c" by blast
  have m2: "matrix_bytes L n \<le> avail h2" using mem h1(4) h2(4) by simp
  from allocate_fresh [OF L n m2]
  obtain h3 where h3: "allocate_matrix_local L n h2 = Inr (next_addr h2, h3)"
    "matrix_at h3 (next_addr h2) L n" "next_addr h3 = next_addr h2 + 1 + nat L"
    "avail h3 = avail h2 - matrix_bytes L n"
    "\<And>X r c. matrix_at h2 X r c \<Longrightarrow> matrix_at h3 X r c" by blast
  have m3: "matrix_bytes L n \<le> avail h3" using mem h1(4) h2(4) h3(4) by simp
  from allocate_fresh [OF L n m3]
  obtain h4 where h4: "allocate_matrix_local L n h3 = Inr (next_addr h3, h4)"
    "matrix_at h4 (next_addr h3) L n"
    "\<And>X r c. matrix_at h3 X r c \<Longrightarrow> matrix_at h4 X r c" by blast
  let ?A = "next_addr h" and ?B = "next_addr h1" and ?C = "next_addr h2" and ?D = "next_addr h3"
  have "matrix_at h4 ?A L n" using h1(2) h2(5) h3(5) h4(3) by blast
  moreover have "matrix_at h4 ?B n n" using h2(2) h3(5) h4(3) by blast
  moreover have "matrix_at h4 ?C L n" using h3(2) h4(3) by blast
  moreover have "?A + nat L < ?B" "?B + nat n < ?C" "?C + nat L < ?D"
    using h1(3) h2(3) h3(3) by simp_all
  moreover have "\<forall>K. bind (allocate_matrix_local L n h) (\<lambda>(A_local, h).
            bind (allocate_matrix_local n n h) (\<lambda>(B, h).
            bind (allocate_matrix_local L n h) (\<lambda>(C_local, h).
            bind (allocate_matrix_local L n h) (\<lambda>(D_local, h).
            K A_local B C_local D_local h)))) = K ?A ?B ?C ?D h4"
    by (simp add: h1(1) h2(1) h3(1) h4(1))
  ultimately show ?thesis using h4(2) by blast
qed

lemma mpi_free_phase:
  assumes A: "matrix_at h A L n" and B: "matrix_at h B n n"
    and C: "matrix_at h C L n" and D: "matrix_at h D L n"
    and ord: "A + nat L < B" "B + nat n < C" "C + nat L < D"
  shows "\<exists>h'. \<forall>K. bind (free_matrix_local A L h) (\<lambda>h.
                  bind (free_matrix_local B n h) (\<lambda>h.
                  bind (free_matrix_local C L h) (\<lambda>h.
                  bind (free_matrix_local D L h) K))) = K h'"
proof -
  from free_matrix_local_at [OF A]
  obtain h1 where h1: "free_matrix_local A L h = Inr h1"
    "\<And>Y r' c'. matrix_at h Y r' c' \<Longrightarrow> A + nat L < Y \<or> Y + nat r' < A \<Longrightarrow> matrix_at h1 Y r' c'"
    by blast
  have B1: "matrix_at h1 B n n" and C1: "matrix_at h1 C L n" and D1: "matrix_at h1 D L n"
    using h1(2) [OF B] h1(2) [OF C] h1(2) [OF D] ord by simp_all
  from free_matrix_local_at [OF B1]
  obtain h2 where h2: "free_matrix_local B n h1 = Inr h2"
    "\<And>Y r' c'. matrix_at h1 Y r' c' \<Longrightarrow> B + nat n < Y \<or> Y + nat r' < B \<Longrightarrow> matrix_at h2 Y r' c'"
    by blast
  have C2: "matrix_at h2 C L n" and D2: "matrix_at h2 D L n"
    using h2(2) [OF C1] h2(2) [OF D1] ord by simp_all
  from free_matrix_local_at [OF C2]
  obtain h3 where h3: "free_matrix_local C L h2 = Inr h3"
    "\<And>Y r' c'. matrix_at h2 Y r' c' \<Longrightarrow> C + nat L < Y \<or> Y + nat r' < C \<Longrightarrow> matrix_at h3 Y r' c'"
    by blast
  have D3: "matrix_at h3 D L n" using h3(2) [OF D2] ord by simp
  from free_matrix_local_at [OF D3]
  obtain h4 where h4: "free_matrix_local D L h3 = Inr h4" by blast
  show ?thesis by (intro exI [of _ h4]) (simp add: h1(1) h2(1) h3(1) h4)
qed

lemma chunk_count_bounds:
  assumes "0 \<le> rank" "rank < nranks" "nranks \<le> INT_MAX" "0 \<le> n" "n \<le> INT_MAX"
  shows "0 \<le> chunk_count rank nranks n" "chunk_count rank nranks n \<le> n"
proof -
  have pos: "0 < nranks" using assms by simp
  have a: "split_point rank nranks n \<le> split_point (rank + 1) nranks n"
    using split_point_le_next [OF pos assms(4)] .
  have b: "0 \<le> split_point rank nranks n" using split_point_nonneg [OF pos assms(4,1)] .
  have "split_point (rank + 1) nranks n \<le> split_point nranks nranks n"
    using split_point_mono [OF pos assms(4), of "rank + 1" nranks] assms(2) by simp
  then have c: "split_point (rank + 1) nranks n \<le> n" by (simp add: split_point_last [OF pos])
  show "0 \<le> chunk_count rank nranks n" "chunk_count rank nranks n \<le> n"
    using a b c by (simp_all add: chunk_count_split [OF assms])
qed

lemma mpi_rank_result:
  assumes rank: "0 \<le> rank" "rank < nranks" "nranks \<le> INT_MAX" and n: "1 \<le> n" "n \<le> INT_MAX"
    and mem: "3 * matrix_bytes (chunk_count rank nranks n) n + matrix_bytes n n \<le> avail h"
  shows "\<exists>w. mpi_main_to_reduce F rank nranks (Some n) h = Inr (Reduce w) \<and>
           w_local_norm w =
             sum_squares F (dot F (\<lambda>i k. d_lit F 1) (\<lambda>k j. d_lit F 2) n)
               (chunk_count rank nranks n) n \<and>
           (\<forall>g. \<exists>h'. mpi_main_after_reduce F rank g w =
              Inr \<lparr>status = 0, err_output = [],
                   norms = (if rank = 0 then [d_sqrt F g] else []), mem = h'\<rparr>)"
proof -
  define L where "L = chunk_count rank nranks n"
  have n0: "0 \<le> n" using n by simp
  have Lb: "0 \<le> L" "L \<le> n" unfolding L_def using chunk_count_bounds [OF rank n0 n(2)] .
  have LM: "L \<le> INT_MAX" using Lb n by simp
  have chunk: "compute_local_chunk rank nranks n =
      Inr (split_point rank nranks n, split_point (rank + 1) nranks n)"
    using compute_local_chunk_valid [OF rank n0 n(2)] .
  have Ls: "split_point (rank + 1) nranks n - split_point rank nranks n = L"
    unfolding L_def by (simp add: chunk_count_split [OF rank n0 n(2)])
  have cint: "c_int L = Inr L"
    using Lb LM by (simp add: c_int_def int_ok_def INT_MIN_def)
  let ?w = "\<lambda>A_local B C_local D_local local_norm h.
      \<lparr>w_local_norm = local_norm, w_heap = h, w_A_local = A_local, w_B = B,
       w_C_local = C_local, w_D_local = D_local, w_local_rows = L, w_global_n = n\<rparr>"
  let ?after = "\<lambda>A_local B C_local D_local h.
        bind (initialize_matrix_local A_local L n (d_lit F 1) h) (\<lambda>h.
        bind (initialize_matrix_local B n n (d_lit F 2) h) (\<lambda>h.
        bind (initialize_matrix_local C_local L n (d_lit F 0) h) (\<lambda>h.
        bind (initialize_matrix_local D_local L n (d_lit F 0) h) (\<lambda>h.
        bind (matrix_multiply_local F A_local B C_local L n h) (\<lambda>h.
        bind (matrix_add_local F C_local A_local D_local L n h) (\<lambda>h.
        bind (compute_local_norm F C_local L n h) (\<lambda>(local_norm, h).
        Inr (Reduce (?w A_local B C_local D_local local_norm h)))))))))"
  have e1: "mpi_main_to_reduce F rank nranks (Some n) h =
        bind (allocate_matrix_local L n h) (\<lambda>(A_local, h).
        bind (allocate_matrix_local n n h) (\<lambda>(B, h).
        bind (allocate_matrix_local L n h) (\<lambda>(C_local, h).
        bind (allocate_matrix_local L n h) (\<lambda>(D_local, h).
        ?after A_local B C_local D_local h))))"
    using n(1) by (simp add: mpi_main_to_reduce_def chunk Ls cint)
  from mpi_alloc_phase [OF Lb(1) LM n0 n(2) mem [folded L_def]]
  obtain h4 A B C D where al: "matrix_at h4 A L n" "matrix_at h4 B n n" "matrix_at h4 C L n"
    "matrix_at h4 D L n" "A + nat L < B" "B + nat n < C" "C + nat L < D"
    "\<And>K :: addr \<Rightarrow> addr \<Rightarrow> addr \<Rightarrow> addr \<Rightarrow> 'a heap \<Rightarrow> error + 'a reached.
          bind (allocate_matrix_local L n h) (\<lambda>(A_local, h).
            bind (allocate_matrix_local n n h) (\<lambda>(B, h).
            bind (allocate_matrix_local L n h) (\<lambda>(C_local, h).
            bind (allocate_matrix_local L n h) (\<lambda>(D_local, h).
            K A_local B C_local D_local h)))) = K A B C D h4"
    by blast
  have e2: "mpi_main_to_reduce F rank nranks (Some n) h = ?after A B C D h4"
    unfolding e1 by (rule al(8) [of ?after])
  let ?v = "sum_squares F (dot F (\<lambda>i k. d_lit F 1) (\<lambda>k j. d_lit F 2) n) L n"
  from mpi_compute_phase [OF al(1-7), of F]
  obtain h' where cp: "same_shape h4 h'"
    "\<And>K :: 'a \<times> 'a heap \<Rightarrow> error + 'a reached.
          bind (initialize_matrix_local A L n (d_lit F 1) h4) (\<lambda>h.
          bind (initialize_matrix_local B n n (d_lit F 2) h) (\<lambda>h.
          bind (initialize_matrix_local C L n (d_lit F 0) h) (\<lambda>h.
          bind (initialize_matrix_local D L n (d_lit F 0) h) (\<lambda>h.
          bind (matrix_multiply_local F A B C L n h) (\<lambda>h.
          bind (matrix_add_local F C A D L n h) (\<lambda>h.
          bind (compute_local_norm F C L n h) K)))))) = K (?v, h')"
    by blast
  have e3: "?after A B C D h4 = Inr (Reduce (?w A B C D ?v h'))"
    using cp(2) [of "\<lambda>(local_norm, h). Inr (Reduce (?w A B C D local_norm h))"] by simp
  note m = same_shape_matrix_at [OF cp(1)]
  have al': "matrix_at h' A L n" "matrix_at h' B n n" "matrix_at h' C L n" "matrix_at h' D L n"
    using al(1-4) by (simp_all add: m)
  from mpi_free_phase [OF al' al(5-7)]
  obtain hf where fr: "\<And>K :: 'a heap \<Rightarrow> error + 'a run.
                  bind (free_matrix_local A L h') (\<lambda>h.
                  bind (free_matrix_local B n h) (\<lambda>h.
                  bind (free_matrix_local C L h) (\<lambda>h.
                  bind (free_matrix_local D L h) K))) = K hf"
    by blast
  have e4: "mpi_main_after_reduce F rank g (?w A B C D ?v h') =
      Inr \<lparr>status = 0, err_output = [], norms = (if rank = 0 then [d_sqrt F g] else []), mem = hf\<rparr>"
    for g
    unfolding mpi_main_after_reduce_def
    using fr [of "\<lambda>h. Inr \<lparr>status = 0, err_output = [],
          norms = (if rank = 0 then [d_sqrt F g] else []), mem = h\<rparr>"]
    by simp
  show ?thesis
    unfolding e2 e3 L_def [symmetric] using e4 by (intro exI [of _ "?w A B C D ?v h'"]) auto
qed

lemma contributions_all:
  assumes "\<And>x. x \<in> set xs \<Longrightarrow> \<exists>w. f x = Inr (Reduce w) \<and> w_local_norm w = p x"
  shows "contributions (map f xs) = Some (map p xs)"
  using assms
proof (induction xs)
  case Nil
  show ?case by simp
next
  case (Cons x xs)
  from Cons.prems [of x] obtain w where w: "f x = Inr (Reduce w)" "w_local_norm w = p x" by auto
  have "contributions (map f xs) = Some (map p xs)" using Cons.IH Cons.prems by simp
  then show ?case using w by simp
qed

lemma mpi_program_result:
  assumes nranks: "1 \<le> nranks" "nranks \<le> INT_MAX" and n: "1 \<le> n" "n \<le> INT_MAX"
    and mem: "\<forall>r\<in>{0..<nranks}.
        3 * matrix_bytes (chunk_count r nranks n) n + matrix_bytes n n \<le> avail (hs r)"
    and rank: "0 \<le> rank" "rank < nranks"
  shows "\<exists>h'. mpi_program F nranks (Some n) hs rank =
      Inr \<lparr>status = 0, err_output = [],
           norms = (if rank = 0
             then [d_sqrt F (reduce_sum F (map (\<lambda>r.
                     sum_squares F (dot F (\<lambda>i k. d_lit F 1) (\<lambda>k j. d_lit F 2) n)
                       (chunk_count r nranks n) n) [0..nranks - 1]))]
             else []),
           mem = h'\<rparr>"
proof -
  let ?p = "\<lambda>r. sum_squares F (dot F (\<lambda>i k. d_lit F 1) (\<lambda>k j. d_lit F 2) n)
                       (chunk_count r nranks n) n"
  let ?f = "\<lambda>r. mpi_main_to_reduce F r nranks (Some n) (hs r)"
  have each: "\<exists>w. ?f r = Inr (Reduce w) \<and> w_local_norm w = ?p r \<and>
           (\<forall>g. \<exists>h'. mpi_main_after_reduce F r g w =
              Inr \<lparr>status = 0, err_output = [],
                   norms = (if r = 0 then [d_sqrt F g] else []), mem = h'\<rparr>)"
    if "0 \<le> r" "r < nranks" for r
    using mpi_rank_result [OF that nranks(2) n, of "hs r" F] mem that by simp
  have "contributions (map ?f [0..nranks - 1]) = Some (map ?p [0..nranks - 1])"
  proof (rule contributions_all)
    fix x assume "x \<in> set [0..nranks - 1]"
    then have "0 \<le> x" "x < nranks" by simp_all
    from each [OF this] show "\<exists>w. ?f x = Inr (Reduce w) \<and> w_local_norm w = ?p x" by blast
  qed
  moreover from each [OF rank] obtain w where w: "?f rank = Inr (Reduce w)"
    "\<And>g. \<exists>h'. mpi_main_after_reduce F rank g w =
              Inr \<lparr>status = 0, err_output = [],
                   norms = (if rank = 0 then [d_sqrt F g] else []), mem = h'\<rparr>"
    by blast
  ultimately show ?thesis
    using w(2) [of "reduce_sum F (map ?p [0..nranks - 1])"]
    by (simp add: mpi_program_def)
qed

section \<open>The phases of the serial program\<close>

lemma serial_alloc_phase:
  assumes n: "0 \<le> n" "n \<le> INT_MAX" and mem: "5 * matrix_bytes n n \<le> avail h"
  shows "\<exists>h5 A B C D AT. matrix_at h5 A n n \<and> matrix_at h5 B n n \<and> matrix_at h5 C n n \<and>
      matrix_at h5 D n n \<and> matrix_at h5 AT n n \<and>
      A + nat n < B \<and> B + nat n < C \<and> C + nat n < D \<and> D + nat n < AT \<and>
      (\<forall>K. bind (allocate_matrix_local n n h) (\<lambda>(A, h).
            bind (allocate_matrix_local n n h) (\<lambda>(B, h).
            bind (allocate_matrix_local n n h) (\<lambda>(C, h).
            bind (allocate_matrix_local n n h) (\<lambda>(D, h).
            bind (allocate_matrix_local n n h) (\<lambda>(AT, h).
            K A B C D AT h))))) = K A B C D AT h5)"
proof -
  have m0: "matrix_bytes n n \<le> avail h" using mem by simp
  from allocate_fresh [OF n n m0]
  obtain h1 where h1: "allocate_matrix_local n n h = Inr (next_addr h, h1)"
    "matrix_at h1 (next_addr h) n n" "next_addr h1 = next_addr h + 1 + nat n"
    "avail h1 = avail h - matrix_bytes n n" by blast
  have m1: "matrix_bytes n n \<le> avail h1" using mem h1(4) by simp
  from allocate_fresh [OF n n m1]
  obtain h2 where h2: "allocate_matrix_local n n h1 = Inr (next_addr h1, h2)"
    "matrix_at h2 (next_addr h1) n n" "next_addr h2 = next_addr h1 + 1 + nat n"
    "avail h2 = avail h1 - matrix_bytes n n"
    "\<And>X r c. matrix_at h1 X r c \<Longrightarrow> matrix_at h2 X r c" by blast
  have m2: "matrix_bytes n n \<le> avail h2" using mem h1(4) h2(4) by simp
  from allocate_fresh [OF n n m2]
  obtain h3 where h3: "allocate_matrix_local n n h2 = Inr (next_addr h2, h3)"
    "matrix_at h3 (next_addr h2) n n" "next_addr h3 = next_addr h2 + 1 + nat n"
    "avail h3 = avail h2 - matrix_bytes n n"
    "\<And>X r c. matrix_at h2 X r c \<Longrightarrow> matrix_at h3 X r c" by blast
  have m3: "matrix_bytes n n \<le> avail h3" using mem h1(4) h2(4) h3(4) by simp
  from allocate_fresh [OF n n m3]
  obtain h4 where h4: "allocate_matrix_local n n h3 = Inr (next_addr h3, h4)"
    "matrix_at h4 (next_addr h3) n n" "next_addr h4 = next_addr h3 + 1 + nat n"
    "avail h4 = avail h3 - matrix_bytes n n"
    "\<And>X r c. matrix_at h3 X r c \<Longrightarrow> matrix_at h4 X r c" by blast
  have m4: "matrix_bytes n n \<le> avail h4" using mem h1(4) h2(4) h3(4) h4(4) by simp
  from allocate_fresh [OF n n m4]
  obtain h5 where h5: "allocate_matrix_local n n h4 = Inr (next_addr h4, h5)"
    "matrix_at h5 (next_addr h4) n n"
    "\<And>X r c. matrix_at h4 X r c \<Longrightarrow> matrix_at h5 X r c" by blast
  let ?A = "next_addr h" and ?B = "next_addr h1" and ?C = "next_addr h2" and ?D = "next_addr h3"
  let ?AT = "next_addr h4"
  have "matrix_at h5 ?A n n" using h1(2) h2(5) h3(5) h4(5) h5(3) by blast
  moreover have "matrix_at h5 ?B n n" using h2(2) h3(5) h4(5) h5(3) by blast
  moreover have "matrix_at h5 ?C n n" using h3(2) h4(5) h5(3) by blast
  moreover have "matrix_at h5 ?D n n" using h4(2) h5(3) by blast
  moreover have "?A + nat n < ?B" "?B + nat n < ?C" "?C + nat n < ?D" "?D + nat n < ?AT"
    using h1(3) h2(3) h3(3) h4(3) by simp_all
  moreover have "\<forall>K. bind (allocate_matrix_local n n h) (\<lambda>(A, h).
            bind (allocate_matrix_local n n h) (\<lambda>(B, h).
            bind (allocate_matrix_local n n h) (\<lambda>(C, h).
            bind (allocate_matrix_local n n h) (\<lambda>(D, h).
            bind (allocate_matrix_local n n h) (\<lambda>(AT, h).
            K A B C D AT h))))) = K ?A ?B ?C ?D ?AT h5"
    by (simp add: h1(1) h2(1) h3(1) h4(1) h5(1))
  ultimately show ?thesis using h5(2) by blast
qed

lemma serial_free_phase:
  assumes A: "matrix_at h A n n" and B: "matrix_at h B n n" and C: "matrix_at h C n n"
    and D: "matrix_at h D n n" and AT: "matrix_at h AT n n"
    and ord: "A + nat n < B" "B + nat n < C" "C + nat n < D" "D + nat n < AT"
  shows "\<exists>h'. \<forall>K. bind (free_matrix_local A n h) (\<lambda>h.
                  bind (free_matrix_local B n h) (\<lambda>h.
                  bind (free_matrix_local C n h) (\<lambda>h.
                  bind (free_matrix_local D n h) (\<lambda>h.
                  bind (free_matrix_local AT n h) K)))) = K h'"
proof -
  from free_matrix_local_at [OF A]
  obtain h1 where h1: "free_matrix_local A n h = Inr h1"
    "\<And>Y r' c'. matrix_at h Y r' c' \<Longrightarrow> A + nat n < Y \<or> Y + nat r' < A \<Longrightarrow> matrix_at h1 Y r' c'"
    by blast
  have B1: "matrix_at h1 B n n" and C1: "matrix_at h1 C n n" and D1: "matrix_at h1 D n n"
    and AT1: "matrix_at h1 AT n n"
    using h1(2) [OF B] h1(2) [OF C] h1(2) [OF D] h1(2) [OF AT] ord by simp_all
  from free_matrix_local_at [OF B1]
  obtain h2 where h2: "free_matrix_local B n h1 = Inr h2"
    "\<And>Y r' c'. matrix_at h1 Y r' c' \<Longrightarrow> B + nat n < Y \<or> Y + nat r' < B \<Longrightarrow> matrix_at h2 Y r' c'"
    by blast
  have C2: "matrix_at h2 C n n" and D2: "matrix_at h2 D n n" and AT2: "matrix_at h2 AT n n"
    using h2(2) [OF C1] h2(2) [OF D1] h2(2) [OF AT1] ord by simp_all
  from free_matrix_local_at [OF C2]
  obtain h3 where h3: "free_matrix_local C n h2 = Inr h3"
    "\<And>Y r' c'. matrix_at h2 Y r' c' \<Longrightarrow> C + nat n < Y \<or> Y + nat r' < C \<Longrightarrow> matrix_at h3 Y r' c'"
    by blast
  have D3: "matrix_at h3 D n n" and AT3: "matrix_at h3 AT n n"
    using h3(2) [OF D2] h3(2) [OF AT2] ord by simp_all
  from free_matrix_local_at [OF D3]
  obtain h4 where h4: "free_matrix_local D n h3 = Inr h4"
    "\<And>Y r' c'. matrix_at h3 Y r' c' \<Longrightarrow> D + nat n < Y \<or> Y + nat r' < D \<Longrightarrow> matrix_at h4 Y r' c'"
    by blast
  have AT4: "matrix_at h4 AT n n" using h4(2) [OF AT3] ord by simp
  from free_matrix_local_at [OF AT4]
  obtain h5 where h5: "free_matrix_local AT n h4 = Inr h5" by blast
  show ?thesis by (intro exI [of _ h5]) (simp add: h1(1) h2(1) h3(1) h4(1) h5)
qed

lemma serial_compute_phase:
  assumes A: "matrix_at h A n n" and B: "matrix_at h B n n" and C: "matrix_at h C n n"
    and D: "matrix_at h D n n" and AT: "matrix_at h AT n n"
    and ord: "A + nat n < B" "B + nat n < C" "C + nat n < D" "D + nat n < AT"
  shows "\<exists>h'. same_shape h h' \<and>
     (\<forall>K. bind (initialize_matrix_local A n n (d_lit F 1) h) (\<lambda>h.
          bind (initialize_matrix_local B n n (d_lit F 2) h) (\<lambda>h.
          bind (initialize_matrix_local C n n (d_lit F 0) h) (\<lambda>h.
          bind (initialize_matrix_local D n n (d_lit F 0) h) (\<lambda>h.
          bind (initialize_matrix_local AT n n (d_lit F 0) h) (\<lambda>h.
          bind (matrix_multiply_local F A B C n n h) (\<lambda>h.
          bind (matrix_add_local F C A D n n h) (\<lambda>h.
          bind (matrix_transpose A AT n h) (\<lambda>h.
          bind (compute_frobenius_norm F C n h) (\<lambda>(norm_C, h).
          bind (compute_frobenius_norm F D n h) (\<lambda>(norm_D, h).
          K norm_C norm_D h))))))))))
        = K (d_sqrt F (sum_squares F (dot F (\<lambda>i k. d_lit F 1) (\<lambda>k j. d_lit F 2) n) n n))
            (d_sqrt F (sum_squares F
               (\<lambda>i j. d_add F (dot F (\<lambda>i k. d_lit F 1) (\<lambda>k j. d_lit F 2) n i j) (d_lit F 1)) n n))
            h')"
proof -
  let ?one = "\<lambda>(i::int) (k::int). d_lit F 1" and ?two = "\<lambda>(k::int) (j::int). d_lit F 2"
  let ?c = "dot F ?one ?two n"
  let ?d = "\<lambda>i j. d_add F (?c i j) (d_lit F 1)"
  have oBA: "B + nat n < A \<or> A + nat n < B" and oCA: "C + nat n < A \<or> A + nat n < C"
    and oCB: "C + nat n < B \<or> B + nat n < C" and oDA: "D + nat n < A \<or> A + nat n < D"
    and oDB: "D + nat n < B \<or> B + nat n < D" and oDC: "D + nat n < C \<or> C + nat n < D"
    and oTA: "AT + nat n < A \<or> A + nat n < AT" and oTB: "AT + nat n < B \<or> B + nat n < AT"
    and oTC: "AT + nat n < C \<or> C + nat n < AT" and oTD: "AT + nat n < D \<or> D + nat n < AT"
    using ord by linarith+
  \<comment> \<open>the five initialisations\<close>
  from initialize_holds [OF matrix_at_block [OF A], of "d_lit F 1"]
  obtain h1 where h1: "initialize_matrix_local A n n (d_lit F 1) h = Inr h1" "same_shape h h1"
    "holds h1 A n n ?one" by blast
  note m1 = same_shape_matrix_at [OF h1(2)]
  have A1: "matrix_at h1 A n n" and B1: "matrix_at h1 B n n" and C1: "matrix_at h1 C n n"
    and D1: "matrix_at h1 D n n" and T1: "matrix_at h1 AT n n"
    using A B C D AT by (simp_all add: m1)
  from initialize_holds [OF matrix_at_block [OF B1], of "d_lit F 2"]
  obtain h2 where h2: "initialize_matrix_local B n n (d_lit F 2) h1 = Inr h2" "same_shape h1 h2"
    "holds h2 B n n ?two"
    "\<forall>m' i' j'. \<not> in_block h1 B n n m' i' j' \<longrightarrow> load h2 m' i' j' = load h1 m' i' j'" by blast
  have a2: "holds h2 A n n ?one" using kept [OF B1 A1 oBA h1(3) h2(4)] .
  note m2 = same_shape_matrix_at [OF h2(2)]
  have A2: "matrix_at h2 A n n" and B2: "matrix_at h2 B n n" and C2: "matrix_at h2 C n n"
    and D2: "matrix_at h2 D n n" and T2: "matrix_at h2 AT n n"
    using A1 B1 C1 D1 T1 by (simp_all add: m2)
  from initialize_holds [OF matrix_at_block [OF C2], of "d_lit F 0"]
  obtain h3 where h3: "initialize_matrix_local C n n (d_lit F 0) h2 = Inr h3" "same_shape h2 h3"
    "\<forall>m' i' j'. \<not> in_block h2 C n n m' i' j' \<longrightarrow> load h3 m' i' j' = load h2 m' i' j'" by blast
  have a3: "holds h3 A n n ?one" using kept [OF C2 A2 oCA a2 h3(3)] .
  have b3: "holds h3 B n n ?two" using kept [OF C2 B2 oCB h2(3) h3(3)] .
  note m3 = same_shape_matrix_at [OF h3(2)]
  have A3: "matrix_at h3 A n n" and B3: "matrix_at h3 B n n" and C3: "matrix_at h3 C n n"
    and D3: "matrix_at h3 D n n" and T3: "matrix_at h3 AT n n"
    using A2 B2 C2 D2 T2 by (simp_all add: m3)
  from initialize_holds [OF matrix_at_block [OF D3], of "d_lit F 0"]
  obtain h4 where h4: "initialize_matrix_local D n n (d_lit F 0) h3 = Inr h4" "same_shape h3 h4"
    "\<forall>m' i' j'. \<not> in_block h3 D n n m' i' j' \<longrightarrow> load h4 m' i' j' = load h3 m' i' j'" by blast
  have a4: "holds h4 A n n ?one" using kept [OF D3 A3 oDA a3 h4(3)] .
  have b4: "holds h4 B n n ?two" using kept [OF D3 B3 oDB b3 h4(3)] .
  note m4 = same_shape_matrix_at [OF h4(2)]
  have A4: "matrix_at h4 A n n" and B4: "matrix_at h4 B n n" and C4: "matrix_at h4 C n n"
    and D4: "matrix_at h4 D n n" and T4: "matrix_at h4 AT n n"
    using A3 B3 C3 D3 T3 by (simp_all add: m4)
  from initialize_holds [OF matrix_at_block [OF T4], of "d_lit F 0"]
  obtain h5 where h5: "initialize_matrix_local AT n n (d_lit F 0) h4 = Inr h5" "same_shape h4 h5"
    "\<forall>m' i' j'. \<not> in_block h4 AT n n m' i' j' \<longrightarrow> load h5 m' i' j' = load h4 m' i' j'" by blast
  have a5: "holds h5 A n n ?one" using kept [OF T4 A4 oTA a4 h5(3)] .
  have b5: "holds h5 B n n ?two" using kept [OF T4 B4 oTB b4 h5(3)] .
  note m5 = same_shape_matrix_at [OF h5(2)]
  have A5: "matrix_at h5 A n n" and B5: "matrix_at h5 B n n" and C5: "matrix_at h5 C n n"
    and D5: "matrix_at h5 D n n" and T5: "matrix_at h5 AT n n"
    using A4 B4 C4 D4 T4 by (simp_all add: m5)
  \<comment> \<open>C = A * B\<close>
  from matrix_multiply_local_result [OF a5 b5 matrix_at_block [OF C5]
      matrix_at_apart [OF C5 A5 oCA] matrix_at_apart [OF C5 B5 oCB], of F]
  obtain h6 where h6: "matrix_multiply_local F A B C n n h5 = Inr h6" "same_shape h5 h6"
    "\<forall>m' i' j'. \<not> in_block h5 C n n m' i' j' \<longrightarrow> load h6 m' i' j' = load h5 m' i' j'"
    "\<forall>m' i' j'. in_block h5 C n n m' i' j' \<longrightarrow>
              (\<exists>i0\<in>{0..<n}. row_of h5 m' i' = row_of h5 C i0 \<and> load h6 m' i' j' = Inr (?c i0 j'))"
    by blast
  have c6: "holds h6 C n n ?c" using holds_filled [OF matrix_at_own_rows [OF C5] h6(4)] .
  have a6: "holds h6 A n n ?one" using kept [OF C5 A5 oCA a5 h6(3)] .
  note m6 = same_shape_matrix_at [OF h6(2)]
  have A6: "matrix_at h6 A n n" and C6: "matrix_at h6 C n n"
    and D6: "matrix_at h6 D n n" and T6: "matrix_at h6 AT n n"
    using A5 C5 D5 T5 by (simp_all add: m6)
  \<comment> \<open>D = C + A\<close>
  from matrix_add_local_result [OF c6 a6 matrix_at_block [OF D6]
      matrix_at_apart [OF D6 C6 oDC] matrix_at_apart [OF D6 A6 oDA], of F]
  obtain h7 where h7: "matrix_add_local F C A D n n h6 = Inr h7" "same_shape h6 h7"
    "\<forall>m' i' j'. \<not> in_block h6 D n n m' i' j' \<longrightarrow> load h7 m' i' j' = load h6 m' i' j'"
    "\<forall>m' i' j'. in_block h6 D n n m' i' j' \<longrightarrow>
              (\<exists>i0\<in>{0..<n}. row_of h6 m' i' = row_of h6 D i0 \<and> load h7 m' i' j' = Inr (?d i0 j'))"
    by blast
  have d7: "holds h7 D n n ?d"
    using holds_filled [OF matrix_at_own_rows [OF D6], of n h7 ?d] h7(4) by simp
  have c7: "holds h7 C n n ?c" using kept [OF D6 C6 oDC c6 h7(3)] .
  have a7: "holds h7 A n n ?one" using kept [OF D6 A6 oDA a6 h7(3)] .
  note m7 = same_shape_matrix_at [OF h7(2)]
  have A7: "matrix_at h7 A n n" and C7: "matrix_at h7 C n n"
    and D7: "matrix_at h7 D n n" and T7: "matrix_at h7 AT n n"
    using A6 C6 D6 T6 by (simp_all add: m7)
  \<comment> \<open>the transpose of A\<close>
  from matrix_transpose_result [OF a7 matrix_at_block [OF T7] matrix_at_apart [OF T7 A7 oTA]]
  obtain h8 where h8: "matrix_transpose A AT n h7 = Inr h8" "same_shape h7 h8"
    "\<forall>m' i' j'. \<not> in_block h7 AT n n m' i' j' \<longrightarrow> load h8 m' i' j' = load h7 m' i' j'"
    by blast
  have c8: "holds h8 C n n ?c" using kept [OF T7 C7 oTC c7 h8(3)] .
  have d8: "holds h8 D n n ?d" using kept [OF T7 D7 oTD d7 h8(3)] .
  \<comment> \<open>the two norms\<close>
  have nC: "compute_frobenius_norm F C n h8 = Inr (d_sqrt F (sum_squares F ?c n n), h8)"
    using compute_frobenius_norm_result [OF c8] .
  have nD: "compute_frobenius_norm F D n h8 = Inr (d_sqrt F (sum_squares F ?d n n), h8)"
    using compute_frobenius_norm_result [OF d8] .
  have sh: "same_shape h h8"
    using h1(2) h2(2) h3(2) h4(2) h5(2) h6(2) h7(2) h8(2) by (blast intro: same_shape_trans)
  show ?thesis
    using sh
    by (intro exI [of _ h8]) (simp add: h1(1) h2(1) h3(1) h4(1) h5(1) h6(1) h7(1) h8(1) nC nD)
qed

lemma serial_main_result:
  assumes n: "1 \<le> n" "n \<le> INT_MAX" and mem: "5 * matrix_bytes n n \<le> avail h"
  shows "\<exists>h'. serial_main F (Some n) h =
      Inr \<lparr>status = 0, err_output = [],
           norms = [d_sqrt F (sum_squares F (dot F (\<lambda>i k. d_lit F 1) (\<lambda>k j. d_lit F 2) n) n n),
                    d_sqrt F (sum_squares F
                      (\<lambda>i j. d_add F (dot F (\<lambda>i k. d_lit F 1) (\<lambda>k j. d_lit F 2) n i j) (d_lit F 1))
                      n n)],
           mem = h'\<rparr>"
proof -
  have n0: "0 \<le> n" using n by simp
  let ?vC = "d_sqrt F (sum_squares F (dot F (\<lambda>i k. d_lit F 1) (\<lambda>k j. d_lit F 2) n) n n)"
  let ?vD = "d_sqrt F (sum_squares F
                      (\<lambda>i j. d_add F (dot F (\<lambda>i k. d_lit F 1) (\<lambda>k j. d_lit F 2) n i j) (d_lit F 1))
                      n n)"
  let ?frees = "\<lambda>A B C D AT norm_C norm_D h.
        bind (free_matrix_local A n h) (\<lambda>h.
        bind (free_matrix_local B n h) (\<lambda>h.
        bind (free_matrix_local C n h) (\<lambda>h.
        bind (free_matrix_local D n h) (\<lambda>h.
        bind (free_matrix_local AT n h) (\<lambda>h.
        Inr \<lparr>status = 0, err_output = [], norms = [norm_C, norm_D], mem = h\<rparr>)))))"
  let ?after = "\<lambda>A B C D AT h.
        bind (initialize_matrix_local A n n (d_lit F 1) h) (\<lambda>h.
        bind (initialize_matrix_local B n n (d_lit F 2) h) (\<lambda>h.
        bind (initialize_matrix_local C n n (d_lit F 0) h) (\<lambda>h.
        bind (initialize_matrix_local D n n (d_lit F 0) h) (\<lambda>h.
        bind (initialize_matrix_local AT n n (d_lit F 0) h) (\<lambda>h.
        bind (matrix_multiply_local F A B C n n h) (\<lambda>h.
        bind (matrix_add_local F C A D n n h) (\<lambda>h.
        bind (matrix_transpose A AT n h) (\<lambda>h.
        bind (compute_frobenius_norm F C n h) (\<lambda>(norm_C, h).
        bind (compute_frobenius_norm F D n h) (\<lambda>(norm_D, h).
        ?frees A B C D AT norm_C norm_D h))))))))))"
  have e1: "serial_main F (Some n) h =
        bind (allocate_matrix_local n n h) (\<lambda>(A, h).
        bind (allocate_matrix_local n n h) (\<lambda>(B, h).
        bind (allocate_matrix_local n n h) (\<lambda>(C, h).
        bind (allocate_matrix_local n n h) (\<lambda>(D, h).
        bind (allocate_matrix_local n n h) (\<lambda>(AT, h).
        ?after A B C D AT h)))))"
    using n(1)
    by (simp add: serial_main_def allocate_matrix_eq free_matrix_eq initialize_matrix_eq
          matrix_multiply_eq matrix_add_eq)
  from serial_alloc_phase [OF n0 n(2) mem]
  obtain h5 A B C D AT where al: "matrix_at h5 A n n" "matrix_at h5 B n n" "matrix_at h5 C n n"
    "matrix_at h5 D n n" "matrix_at h5 AT n n"
    "A + nat n < B" "B + nat n < C" "C + nat n < D" "D + nat n < AT"
    "\<And>K :: addr \<Rightarrow> addr \<Rightarrow> addr \<Rightarrow> addr \<Rightarrow> addr \<Rightarrow> 'a heap \<Rightarrow> error + 'a run.
        bind (allocate_matrix_local n n h) (\<lambda>(A, h).
        bind (allocate_matrix_local n n h) (\<lambda>(B, h).
        bind (allocate_matrix_local n n h) (\<lambda>(C, h).
        bind (allocate_matrix_local n n h) (\<lambda>(D, h).
        bind (allocate_matrix_local n n h) (\<lambda>(AT, h).
        K A B C D AT h))))) = K A B C D AT h5"
    by blast
  have e2: "serial_main F (Some n) h = ?after A B C D AT h5"
    unfolding e1 by (rule al(10) [of ?after])
  from serial_compute_phase [OF al(1-9), of F]
  obtain h' where cp: "same_shape h5 h'"
    "\<And>K :: 'a \<Rightarrow> 'a \<Rightarrow> 'a heap \<Rightarrow> error + 'a run.
        bind (initialize_matrix_local A n n (d_lit F 1) h5) (\<lambda>h.
        bind (initialize_matrix_local B n n (d_lit F 2) h) (\<lambda>h.
        bind (initialize_matrix_local C n n (d_lit F 0) h) (\<lambda>h.
        bind (initialize_matrix_local D n n (d_lit F 0) h) (\<lambda>h.
        bind (initialize_matrix_local AT n n (d_lit F 0) h) (\<lambda>h.
        bind (matrix_multiply_local F A B C n n h) (\<lambda>h.
        bind (matrix_add_local F C A D n n h) (\<lambda>h.
        bind (matrix_transpose A AT n h) (\<lambda>h.
        bind (compute_frobenius_norm F C n h) (\<lambda>(norm_C, h).
        bind (compute_frobenius_norm F D n h) (\<lambda>(norm_D, h).
        K norm_C norm_D h)))))))))) = K ?vC ?vD h'"
    by blast
  have e3: "?after A B C D AT h5 = ?frees A B C D AT ?vC ?vD h'"
    by (rule cp(2) [of "?frees A B C D AT"])
  note m = same_shape_matrix_at [OF cp(1)]
  have al': "matrix_at h' A n n" "matrix_at h' B n n" "matrix_at h' C n n" "matrix_at h' D n n"
    "matrix_at h' AT n n"
    using al(1-5) by (simp_all add: m)
  from serial_free_phase [OF al' al(6-9)]
  obtain hf where fr: "\<And>K :: 'a heap \<Rightarrow> error + 'a run.
        bind (free_matrix_local A n h') (\<lambda>h.
        bind (free_matrix_local B n h) (\<lambda>h.
        bind (free_matrix_local C n h) (\<lambda>h.
        bind (free_matrix_local D n h) (\<lambda>h.
        bind (free_matrix_local AT n h) K)))) = K hf"
    by blast
  have e4: "?frees A B C D AT ?vC ?vD h' =
      Inr \<lparr>status = 0, err_output = [], norms = [?vC, ?vD], mem = hf\<rparr>"
    by (rule fr [of "\<lambda>h. Inr \<lparr>status = 0, err_output = [], norms = [?vC, ?vD], mem = h\<rparr>"])
  show ?thesis unfolding e2 e3 e4 by blast
qed

lemma exact_partition_total:
  assumes "1 \<le> n" "n \<le> INT_MAX" "1 \<le> nranks" "nranks \<le> INT_MAX"
  shows "reduce_sum exact_arith (map (\<lambda>r.
            sum_squares exact_arith (dot exact_arith (\<lambda>i k. a (chunk_first r nranks n + i) k) b n)
              (chunk_count r nranks n) n) [0..nranks - 1])
       = sum_squares exact_arith (dot exact_arith a b n) n n"
proof -
  let ?E = exact_arith
  define p where "p r = sum_squares ?E (dot ?E (\<lambda>i k. a (chunk_first r nranks n + i) k) b n)
                          (chunk_count r nranks n) n" for r
  define q where "q i = (\<Sum>j\<in>{0..<n}. dot ?E a b n i j * dot ?E a b n i j)" for i
  have n0: "0 \<le> n" using assms(1) by simp
  have pr: "p r = (\<Sum>i\<in>{0..<chunk_count r nranks n}. q (chunk_first r nranks n + i))" for r
    by (simp add: p_def q_def sum_squares_exact dot_exact)
  have "reduce_sum ?E (map p [0..nranks - 1]) = (\<Sum>r\<in>{0..<nranks}. p r)"
    using reduce_sum_exact [OF assms(3)] .
  also have "\<dots> = (\<Sum>i\<in>{0..<n}. q i)"
    unfolding pr using partition_sum [OF assms(3,4) n0 assms(2)] .
  also have "\<dots> = sum_squares ?E (dot ?E a b n) n n"
    by (simp add: q_def sum_squares_exact)
  finally show ?thesis unfolding p_def .
qed

lemma chunk_count_single: "0 \<le> n \<Longrightarrow> n \<le> INT_MAX \<Longrightarrow> chunk_count 0 1 n = n"
  using chunk_count_split [of 0 1 n] by (simp add: INT_MAX_def split_point_def)

lemma ex_avail: "avail example_heap = 1024"
  by (simp add: example_heap_def)

lemma upto_0_0: "[0..0::int] = [0]"
  by (simp add: upto_rec1)

section \<open>The distributed and the serial computation\<close>

text \<open>
  C5.  Take double arithmetic to be real arithmetic followed by a rounding \<open>rnd\<close> that leaves
  every integer of magnitude up to \<open>2^53\<close> alone, as IEEE binary64 does.  With \<open>n = 2\<close>, \<open>A\<close>
  filled with the literal \<^verbatim>\<open>1.0\<close> and \<open>B\<close> with \<^verbatim>\<open>2.0\<close>, the multiplication leaves \<open>4\<close> in every
  cell of \<open>C\<close>, the sum of squares of \<open>C\<close> is \<open>64\<close>, and its square root, which is what
  \<^verbatim>\<open>compute_frobenius_norm\<close> returns, is exactly \<open>8\<close>.  The programs, run with the size 2
  and enough memory, print it: the serial one prints the norms \<open>8\<close> and \<open>10\<close>, and rank 0 of
  the MPI program on two processes, each with one row, prints \<open>8\<close>.
\<close>

theorem scenario_two_by_two:
  assumes "\<And>k::int. \<bar>k\<bar> \<le> 2 ^ 53 \<Longrightarrow> rnd (of_int k) = of_int k"
    and "holds h A 2 2 (\<lambda>i j. d_lit (rounded_arith rnd) 1)"
    and "holds h B 2 2 (\<lambda>i j. d_lit (rounded_arith rnd) 2)"
    and "block h C 2 2" and "own_rows h C 2" and "apart h C 2 A 2" and "apart h C 2 B 2"
    and "5 * matrix_bytes 2 2 \<le> avail h0"
    and "3 * matrix_bytes 1 2 + matrix_bytes 2 2 \<le> avail (hs 0)"
    and "3 * matrix_bytes 1 2 + matrix_bytes 2 2 \<le> avail (hs 1)"
  shows "(\<exists>h'. matrix_multiply_local (rounded_arith rnd) A B C 2 2 h = Inr h' \<and>
           holds h' C 2 2 (\<lambda>i j. 4) \<and>
           compute_local_norm (rounded_arith rnd) C 2 2 h' = Inr (64, h') \<and>
           d_sqrt (rounded_arith rnd) 64 = 8 \<and>
           compute_frobenius_norm (rounded_arith rnd) C 2 h' = Inr (8, h'))
       \<and> (\<exists>m. serial_main (rounded_arith rnd) (Some 2) h0 =
               Inr \<lparr>status = 0, err_output = [], norms = [8, 10], mem = m\<rparr>)
       \<and> (\<exists>m. mpi_program (rounded_arith rnd) 2 (Some 2) hs 0 =
               Inr \<lparr>status = 0, err_output = [], norms = [8], mem = m\<rparr>)"
proof (intro conjI)
  let ?F = "rounded_arith rnd"
  let ?one = "\<lambda>(i::int) (k::int). d_lit ?F 1" and ?two = "\<lambda>(k::int) (j::int). d_lit ?F 2"
  have r: "rnd 0 = 0" "rnd 1 = 1" "rnd 2 = 2" "rnd 4 = 4" "rnd 8 = 8" "rnd 16 = 16" "rnd 32 = 32"
    "rnd 48 = 48" "rnd 64 = 64"
    using assms(1) [of 0] assms(1) [of 1] assms(1) [of 2] assms(1) [of 4] assms(1) [of 8]
      assms(1) [of 16] assms(1) [of 32] assms(1) [of 48] assms(1) [of 64]
    by simp_all
  have r': "rnd 5 = 5" "rnd 10 = 10" "rnd 25 = 25" "rnd 50 = 50" "rnd 75 = 75" "rnd 100 = 100"
    using assms(1) [of 5] assms(1) [of 10] assms(1) [of 25] assms(1) [of 50] assms(1) [of 75]
      assms(1) [of 100]
    by simp_all
  have sq: "sqrt 64 = 8" using real_sqrt_abs [of 8] by simp
  have sq': "sqrt 100 = 10" using real_sqrt_abs [of 10] by simp
  have d: "dot ?F ?one ?two 2 = (\<lambda>i j. 4)"
    by (intro ext) (simp add: dot_def rounded_arith_def upto_0_1 r)
  have s: "sum_squares ?F (\<lambda>i j. 4) 2 2 = 64"
    by (simp add: sum_squares_def rounded_arith_def upto_0_1 r)
  have s1: "sum_squares ?F (\<lambda>i j. 4) 1 2 = 32"
    by (simp add: sum_squares_def rounded_arith_def upto_0_1 upto_0_0 r)
  have sD: "sum_squares ?F (\<lambda>i j. d_add ?F 4 (d_lit ?F 1)) 2 2 = 100"
    by (simp add: sum_squares_def rounded_arith_def upto_0_1 r r')
  have q: "d_sqrt ?F 64 = 8" by (simp add: rounded_arith_def sq r)
  have qD: "d_sqrt ?F 100 = 10" by (simp add: rounded_arith_def sq' r')
  have red: "reduce_sum ?F [32, 32] = 64" by (simp add: rounded_arith_def r)
  from matrix_multiply_local_result [OF assms(2,3,4,6,7), of ?F]
  obtain h' where h': "matrix_multiply_local ?F A B C 2 2 h = Inr h'"
    "\<forall>m' i' j'. in_block h C 2 2 m' i' j' \<longrightarrow>
              (\<exists>i0\<in>{0..<2}. row_of h m' i' = row_of h C i0 \<and>
                  load h' m' i' j' = Inr (dot ?F ?one ?two 2 i0 j'))"
    by blast
  have c: "holds h' C 2 2 (\<lambda>i j. 4)"
    using holds_filled [OF assms(5), of 2 h' "\<lambda>i j. 4"] h'(2) unfolding d by simp
  have n: "compute_local_norm ?F C 2 2 h' = Inr (64, h')"
    using compute_local_norm_result [OF c, of ?F] by (simp add: s)
  have f: "compute_frobenius_norm ?F C 2 h' = Inr (8, h')"
    using compute_frobenius_norm_result [OF c, of ?F] by (simp add: s q)
  show "\<exists>h'. matrix_multiply_local (rounded_arith rnd) A B C 2 2 h = Inr h' \<and>
           holds h' C 2 2 (\<lambda>i j. 4) \<and>
           compute_local_norm (rounded_arith rnd) C 2 2 h' = Inr (64, h') \<and>
           d_sqrt (rounded_arith rnd) 64 = 8 \<and>
           compute_frobenius_norm (rounded_arith rnd) C 2 h' = Inr (8, h')"
    using h'(1) c n q f by blast
  have two: "(1::int) \<le> 2" "2 \<le> INT_MAX" "(0::int) \<le> 0" "(0::int) < 2"
    by (simp_all add: INT_MAX_def)
  from serial_main_result [OF two(1,2) assms(8), of ?F]
  show "\<exists>m. serial_main (rounded_arith rnd) (Some 2) h0 =
               Inr \<lparr>status = 0, err_output = [], norms = [8, 10], mem = m\<rparr>"
    unfolding d s sD q qD .
  have mem: "\<forall>r\<in>{0..<2}. 3 * matrix_bytes (chunk_count r 2 2) 2 + matrix_bytes 2 2 \<le> avail (hs r)"
    using assms(9,10) by (simp add: int_range2 ex_chunks)
  have l: "map (\<lambda>r. sum_squares ?F (\<lambda>i j. 4) (chunk_count r 2 2) 2) [0..2 - 1] = [32, 32]"
    by (simp add: upto_0_1 ex_chunks s1)
  from mpi_program_result [OF two(1,2) two(1,2) mem two(3,4), of ?F]
  show "\<exists>m. mpi_program (rounded_arith rnd) 2 (Some 2) hs 0 =
               Inr \<lparr>status = 0, err_output = [], norms = [8], mem = m\<rparr>"
    unfolding d l red q by simp
qed

theorem scenario_two_by_two_witness:
  "rounded_arith (\<lambda>x. x) = exact_arith
   \<and> holds example_heap 0 2 2 (\<lambda>i j. d_lit exact_arith 1)
   \<and> holds example_heap 3 2 2 (\<lambda>i j. d_lit exact_arith 2)
   \<and> block example_heap 6 2 2 \<and> own_rows example_heap 6 2
   \<and> apart example_heap 6 2 0 2 \<and> apart example_heap 6 2 3 2
   \<and> 5 * matrix_bytes 2 2 \<le> avail example_heap
   \<and> 3 * matrix_bytes 1 2 + matrix_bytes 2 2 \<le> avail example_heap
   \<and> (\<exists>h'. matrix_multiply_local exact_arith 0 3 6 2 2 example_heap = Inr h' \<and>
          holds h' 6 2 2 (\<lambda>i j. 4) \<and>
          compute_local_norm exact_arith 6 2 2 h' = Inr (64, h') \<and>
          compute_frobenius_norm exact_arith 6 2 h' = Inr (8, h'))
   \<and> (\<exists>m. serial_main exact_arith (Some 2) example_heap =
               Inr \<lparr>status = 0, err_output = [], norms = [8, 10], mem = m\<rparr>)
   \<and> (\<exists>m. mpi_program exact_arith 2 (Some 2) (\<lambda>r. example_heap) 0 =
               Inr \<lparr>status = 0, err_output = [], norms = [8], mem = m\<rparr>)"
proof -
  have e: "rounded_arith (\<lambda>x. x) = exact_arith"
    by (simp add: rounded_arith_def exact_arith_def)
  have a: "holds example_heap 0 2 2 (\<lambda>i j. d_lit exact_arith 1)"
    and b: "holds example_heap 3 2 2 (\<lambda>i j. d_lit exact_arith 2)"
    using ex_holds(1,2) by (simp_all add: exact_arith_def)
  have m5: "5 * matrix_bytes 2 2 \<le> avail example_heap"
    and m4: "3 * matrix_bytes 1 2 + matrix_bytes 2 2 \<le> avail example_heap"
    by (simp_all add: matrix_bytes_def ex_avail)
  have "(\<exists>h'. matrix_multiply_local (rounded_arith (\<lambda>x. x)) 0 3 6 2 2 example_heap = Inr h' \<and>
           holds h' 6 2 2 (\<lambda>i j. 4) \<and>
           compute_local_norm (rounded_arith (\<lambda>x. x)) 6 2 2 h' = Inr (64, h') \<and>
           d_sqrt (rounded_arith (\<lambda>x. x)) 64 = 8 \<and>
           compute_frobenius_norm (rounded_arith (\<lambda>x. x)) 6 2 h' = Inr (8, h'))
       \<and> (\<exists>m. serial_main (rounded_arith (\<lambda>x. x)) (Some 2) example_heap =
               Inr \<lparr>status = 0, err_output = [], norms = [8, 10], mem = m\<rparr>)
       \<and> (\<exists>m. mpi_program (rounded_arith (\<lambda>x. x)) 2 (Some 2) (\<lambda>r. example_heap) 0 =
               Inr \<lparr>status = 0, err_output = [], norms = [8], mem = m\<rparr>)"
    by (rule scenario_two_by_two)
      (simp_all add: e a b ex_blocks(3) ex_own_rows(3) ex_apart(1) ex_apart(2) m5 m4)
  then show ?thesis
    unfolding e using e a b ex_blocks(3) ex_own_rows(3) ex_apart(1) ex_apart(2) m5 m4 by blast
qed

text \<open>
  C6.  Let \<open>n \<ge> 1\<close> rows be split over \<open>nranks \<ge> 1\<close> workers by \<^verbatim>\<open>compute_local_chunk\<close>.

  \<^item> For any matrices \<open>a\<close> and \<open>b\<close>, worker \<open>r\<close> holding in its own heap its rows of \<open>a\<close> and a
    replica of \<open>b\<close>: in exact arithmetic every worker's \<^verbatim>\<open>matrix_multiply_local\<close> followed by
    \<^verbatim>\<open>compute_local_norm\<close> returns a partial sum \<open>p r\<close>, and the square root of the reduced
    sum of the \<open>p r\<close> is the value that \<^verbatim>\<open>matrix_multiply\<close> followed by
    \<^verbatim>\<open>compute_frobenius_norm\<close> returns on one heap holding the whole of \<open>a\<close> and \<open>b\<close>.
  \<^item> The programs themselves, in exact arithmetic and with enough memory for their matrices:
    rank 0 of the MPI program and the serial program both return 0, and the norm rank 0
    prints is the first norm (that of \<open>C\<close>) the serial program prints.
  \<^item> With a single worker the same holds in any arithmetic \<open>F\<close>: the two programs print the
    same value, computed by the same operations in the same order.
\<close>

theorem partitioned_norm_equals_whole:
  assumes "1 \<le> n" and "n \<le> INT_MAX" and "1 \<le> nranks" and "nranks \<le> INT_MAX"
    and "\<forall>r\<in>{0..<nranks}.
           worker_ready (hw r) (Aw r) (Bw r) (Cw r) (chunk_count r nranks n) n
             (\<lambda>i k. a (chunk_first r nranks n + i) k) b"
    and "worker_ready h A B C n n a b"
    and "\<forall>r\<in>{0..<nranks}.
           3 * matrix_bytes (chunk_count r nranks n) n + matrix_bytes n n \<le> avail (hs r)"
    and "5 * matrix_bytes n n \<le> avail h0"
    and "4 * matrix_bytes n n \<le> avail (gs 0)"
    and "5 * matrix_bytes n n \<le> avail g0"
  shows "(\<exists>p. (\<forall>r\<in>{0..<nranks}. \<exists>h'.
                 bind (matrix_multiply_local exact_arith (Aw r) (Bw r) (Cw r)
                         (chunk_count r nranks n) n (hw r))
                   (compute_local_norm exact_arith (Cw r) (chunk_count r nranks n) n)
                 = Inr (p r, h'))
            \<and> (\<exists>h'. bind (matrix_multiply exact_arith A B C n h)
                        (compute_frobenius_norm exact_arith C n)
                 = Inr (d_sqrt exact_arith (reduce_sum exact_arith (map p [0..nranks - 1])), h')))
       \<and> (\<exists>v d m m'.
             mpi_program exact_arith nranks (Some n) hs 0 =
               Inr \<lparr>status = 0, err_output = [], norms = [v], mem = m\<rparr> \<and>
             serial_main exact_arith (Some n) h0 =
               Inr \<lparr>status = 0, err_output = [], norms = [v, d], mem = m'\<rparr>)
       \<and> (\<exists>v d m m'.
             mpi_program F 1 (Some n) gs 0 =
               Inr \<lparr>status = 0, err_output = [], norms = [v], mem = m\<rparr> \<and>
             serial_main F (Some n) g0 =
               Inr \<lparr>status = 0, err_output = [], norms = [v, d], mem = m'\<rparr>)"
proof (intro conjI)
  let ?E = exact_arith
  let ?rows = "\<lambda>r. chunk_count r nranks n"
  let ?a = "\<lambda>r i k. a (chunk_first r nranks n + i) k"
  define p where "p r = sum_squares ?E (dot ?E (?a r) b n) (?rows r) n" for r
  have n0: "0 \<le> n" using assms(1) by simp
  have w: "\<forall>r\<in>{0..<nranks}. \<exists>h'.
                 bind (matrix_multiply_local ?E (Aw r) (Bw r) (Cw r) (?rows r) n (hw r))
                   (compute_local_norm ?E (Cw r) (?rows r) n)
                 = Inr (p r, h')"
    unfolding p_def using assms(5) multiply_then_norm [where F = ?E] by blast
  have tot: "reduce_sum ?E (map p [0..nranks - 1]) = sum_squares ?E (dot ?E a b n) n n"
    unfolding p_def using exact_partition_total [OF assms(1-4)] .
  from multiply_then_norm [OF assms(6), of ?E]
  obtain h' where "bind (matrix_multiply_local ?E A B C n n h) (compute_local_norm ?E C n n)
              = Inr (sum_squares ?E (dot ?E a b n) n n, h')"
    by blast
  then have "bind (matrix_multiply ?E A B C n h) (compute_frobenius_norm ?E C n)
      = Inr (d_sqrt ?E (reduce_sum ?E (map p [0..nranks - 1])), h')"
    unfolding multiply_then_frobenius tot by simp
  with w show "\<exists>p. (\<forall>r\<in>{0..<nranks}. \<exists>h'.
                 bind (matrix_multiply_local exact_arith (Aw r) (Bw r) (Cw r)
                         (chunk_count r nranks n) n (hw r))
                   (compute_local_norm exact_arith (Cw r) (chunk_count r nranks n) n)
                 = Inr (p r, h'))
            \<and> (\<exists>h'. bind (matrix_multiply exact_arith A B C n h)
                        (compute_frobenius_norm exact_arith C n)
                 = Inr (d_sqrt exact_arith (reduce_sum exact_arith (map p [0..nranks - 1])), h'))"
    by blast
next
  let ?E = exact_arith
  let ?one = "\<lambda>(i::int) (k::int). d_lit ?E 1" and ?two = "\<lambda>(k::int) (j::int). d_lit ?E 2"
  have z: "(0::int) \<le> 0" "(0::int) < nranks" using assms(3) by simp_all
  from mpi_program_result [OF assms(3,4,1,2,7) z, of ?E]
  obtain m where m: "mpi_program ?E nranks (Some n) hs 0 =
      Inr \<lparr>status = 0, err_output = [],
           norms = [d_sqrt ?E (reduce_sum ?E (map (\<lambda>r.
                     sum_squares ?E (dot ?E ?one ?two n) (chunk_count r nranks n) n)
                     [0..nranks - 1]))],
           mem = m\<rparr>"
    by auto
  have tot: "reduce_sum ?E (map (\<lambda>r. sum_squares ?E (dot ?E ?one ?two n) (chunk_count r nranks n) n)
                     [0..nranks - 1])
           = sum_squares ?E (dot ?E ?one ?two n) n n"
    using exact_partition_total [OF assms(1-4), of ?one ?two] by simp
  from serial_main_result [OF assms(1,2,8), of ?E]
  obtain m' where "serial_main ?E (Some n) h0 =
      Inr \<lparr>status = 0, err_output = [],
           norms = [d_sqrt ?E (sum_squares ?E (dot ?E ?one ?two n) n n),
                    d_sqrt ?E (sum_squares ?E (\<lambda>i j. d_add ?E (dot ?E ?one ?two n i j) (d_lit ?E 1))
                      n n)],
           mem = m'\<rparr>"
    by blast
  with m [unfolded tot] show "\<exists>v d m m'.
             mpi_program exact_arith nranks (Some n) hs 0 =
               Inr \<lparr>status = 0, err_output = [], norms = [v], mem = m\<rparr> \<and>
             serial_main exact_arith (Some n) h0 =
               Inr \<lparr>status = 0, err_output = [], norms = [v, d], mem = m'\<rparr>"
    by blast
next
  let ?one = "\<lambda>(i::int) (k::int). d_lit F 1" and ?two = "\<lambda>(k::int) (j::int). d_lit F 2"
  have n0: "0 \<le> n" using assms(1) by simp
  have c1: "chunk_count 0 1 n = n" using chunk_count_single [OF n0 assms(2)] .
  have mem1: "\<forall>r\<in>{0..<1}. 3 * matrix_bytes (chunk_count r 1 n) n + matrix_bytes n n \<le> avail (gs r)"
    using assms(9) by (simp add: int_range1 c1)
  have one: "(1::int) \<le> 1" "(1::int) \<le> INT_MAX" "(0::int) \<le> 0" "(0::int) < 1"
    by (simp_all add: INT_MAX_def)
  from mpi_program_result [OF one(1,2) assms(1,2) mem1 one(3,4), of F]
  obtain m where m: "mpi_program F 1 (Some n) gs 0 =
      Inr \<lparr>status = 0, err_output = [],
           norms = [d_sqrt F (sum_squares F (dot F ?one ?two n) n n)], mem = m\<rparr>"
    by (auto simp: c1)
  from serial_main_result [OF assms(1,2,10), of F]
  obtain m' where "serial_main F (Some n) g0 =
      Inr \<lparr>status = 0, err_output = [],
           norms = [d_sqrt F (sum_squares F (dot F ?one ?two n) n n),
                    d_sqrt F (sum_squares F (\<lambda>i j. d_add F (dot F ?one ?two n i j) (d_lit F 1))
                      n n)],
           mem = m'\<rparr>"
    by blast
  with m show "\<exists>v d m m'.
             mpi_program F 1 (Some n) gs 0 =
               Inr \<lparr>status = 0, err_output = [], norms = [v], mem = m\<rparr> \<and>
             serial_main F (Some n) g0 =
               Inr \<lparr>status = 0, err_output = [], norms = [v, d], mem = m'\<rparr>"
    by blast
qed

theorem partitioned_norm_equals_whole_witness:
  "(1::int) \<le> 2 \<and> 2 \<le> INT_MAX
   \<and> worker_ready example_heap 0 3 6 (chunk_count 0 2 2) 2 (\<lambda>i k. 1) (\<lambda>k j. 2)
   \<and> worker_ready example_heap 0 3 6 (chunk_count 1 2 2) 2 (\<lambda>i k. 1) (\<lambda>k j. 2)
   \<and> worker_ready example_heap 0 3 6 2 2 (\<lambda>i k. 1) (\<lambda>k j. 2)
   \<and> 3 * matrix_bytes (chunk_count 0 2 2) 2 + matrix_bytes 2 2 \<le> avail example_heap
   \<and> 3 * matrix_bytes (chunk_count 1 2 2) 2 + matrix_bytes 2 2 \<le> avail example_heap
   \<and> 5 * matrix_bytes 2 2 \<le> avail example_heap
   \<and> (\<exists>p0 p1 h0 h1 h'.
         bind (matrix_multiply_local exact_arith 0 3 6 (chunk_count 0 2 2) 2 example_heap)
           (compute_local_norm exact_arith 6 (chunk_count 0 2 2) 2) = Inr (p0, h0) \<and>
         bind (matrix_multiply_local exact_arith 0 3 6 (chunk_count 1 2 2) 2 example_heap)
           (compute_local_norm exact_arith 6 (chunk_count 1 2 2) 2) = Inr (p1, h1) \<and>
         bind (matrix_multiply exact_arith 0 3 6 2 example_heap)
           (compute_frobenius_norm exact_arith 6 2)
           = Inr (d_sqrt exact_arith (reduce_sum exact_arith [p0, p1]), h'))
   \<and> (\<exists>v d m m'.
         mpi_program exact_arith 2 (Some 2) (\<lambda>r. example_heap) 0 =
           Inr \<lparr>status = 0, err_output = [], norms = [v], mem = m\<rparr> \<and>
         serial_main exact_arith (Some 2) example_heap =
           Inr \<lparr>status = 0, err_output = [], norms = [v, d], mem = m'\<rparr>)
   \<and> (\<exists>v d m m'.
         mpi_program exact_arith 1 (Some 2) (\<lambda>r. example_heap) 0 =
           Inr \<lparr>status = 0, err_output = [], norms = [v], mem = m\<rparr> \<and>
         serial_main exact_arith (Some 2) example_heap =
           Inr \<lparr>status = 0, err_output = [], norms = [v, d], mem = m'\<rparr>)"
proof -
  have n: "(1::int) \<le> 2" "2 \<le> INT_MAX" by (simp_all add: INT_MAX_def)
  have r: "{0..<2::int} = {0, 1}" by auto
  have w: "\<forall>r\<in>{0..<2}. worker_ready ((\<lambda>r. example_heap) r) ((\<lambda>r. 0) r) ((\<lambda>r. 3) r) ((\<lambda>r. 6) r)
              (chunk_count r 2 2) 2 (\<lambda>i k. (\<lambda>i k. 1) (chunk_first r 2 2 + i) k) (\<lambda>k j. 2)"
    by (simp add: r ex_chunks ex_ready)
  have m0: "3 * matrix_bytes (chunk_count 0 2 2) 2 + matrix_bytes 2 2 \<le> avail example_heap"
    and m1: "3 * matrix_bytes (chunk_count 1 2 2) 2 + matrix_bytes 2 2 \<le> avail example_heap"
    and m5: "5 * matrix_bytes 2 2 \<le> avail example_heap"
    and m4: "4 * matrix_bytes 2 2 \<le> avail example_heap"
    by (simp_all add: ex_chunks matrix_bytes_def ex_avail)
  have ms: "\<forall>r\<in>{0..<2}. 3 * matrix_bytes (chunk_count r 2 2) 2 + matrix_bytes 2 2
              \<le> avail ((\<lambda>r. example_heap) r)"
    using m0 m1 by (simp add: r)
  note t = partitioned_norm_equals_whole [OF n n w ex_ready(1) ms m5, of "\<lambda>r. example_heap"
      example_heap exact_arith, OF m4 m5]
  from t obtain p h' where p: "\<forall>r\<in>{0..<2}. \<exists>h'.
        bind (matrix_multiply_local exact_arith 0 3 6 (chunk_count r 2 2) 2 example_heap)
          (compute_local_norm exact_arith 6 (chunk_count r 2 2) 2) = Inr (p r, h')"
    "bind (matrix_multiply exact_arith 0 3 6 2 example_heap) (compute_frobenius_norm exact_arith 6 2)
       = Inr (d_sqrt exact_arith (reduce_sum exact_arith (map p [0..2 - 1])), h')"
    by blast
  have l: "map p [0..2 - 1] = [p 0, p 1]" by (simp add: upto_0_1)
  from p(1) obtain h0 h1 where
    "bind (matrix_multiply_local exact_arith 0 3 6 (chunk_count 0 2 2) 2 example_heap)
          (compute_local_norm exact_arith 6 (chunk_count 0 2 2) 2) = Inr (p 0, h0)"
    "bind (matrix_multiply_local exact_arith 0 3 6 (chunk_count 1 2 2) 2 example_heap)
          (compute_local_norm exact_arith 6 (chunk_count 1 2 2) 2) = Inr (p 1, h1)"
    unfolding r by blast
  with p(2) [unfolded l]
  have k: "\<exists>p0 p1 h0 h1 h'.
         bind (matrix_multiply_local exact_arith 0 3 6 (chunk_count 0 2 2) 2 example_heap)
           (compute_local_norm exact_arith 6 (chunk_count 0 2 2) 2) = Inr (p0, h0) \<and>
         bind (matrix_multiply_local exact_arith 0 3 6 (chunk_count 1 2 2) 2 example_heap)
           (compute_local_norm exact_arith 6 (chunk_count 1 2 2) 2) = Inr (p1, h1) \<and>
         bind (matrix_multiply exact_arith 0 3 6 2 example_heap)
           (compute_frobenius_norm exact_arith 6 2)
           = Inr (d_sqrt exact_arith (reduce_sum exact_arith [p0, p1]), h')"
    by blast
  from t have a: "\<exists>v d m m'.
         mpi_program exact_arith 2 (Some 2) (\<lambda>r. example_heap) 0 =
           Inr \<lparr>status = 0, err_output = [], norms = [v], mem = m\<rparr> \<and>
         serial_main exact_arith (Some 2) example_heap =
           Inr \<lparr>status = 0, err_output = [], norms = [v, d], mem = m'\<rparr>"
    by blast
  from t have b: "\<exists>v d m m'.
         mpi_program exact_arith 1 (Some 2) (\<lambda>r. example_heap) 0 =
           Inr \<lparr>status = 0, err_output = [], norms = [v], mem = m\<rparr> \<and>
         serial_main exact_arith (Some 2) example_heap =
           Inr \<lparr>status = 0, err_output = [], norms = [v, d], mem = m'\<rparr>"
    by blast
  show ?thesis
    using n ex_ready m0 m1 m5 k a b unfolding ex_chunks by blast
qed

end
